theory Spec2Isabelle
  imports Complex_Main "HOL-Library.Multiset"
begin

section \<open>Configuration from the environment\<close>

text \<open>
  The process environment is a partial map from variable names to values. Go strings are
  byte sequences; a \<^typ>\<open>char\<close> is one byte. \<open>os.Getenv\<close> answers the empty string
  for a variable that is not set.
\<close>

type_synonym environ = "string \<Rightarrow> string option"

definition Getenv :: "environ \<Rightarrow> string \<Rightarrow> string" where
  "Getenv env key = (case env key of None \<Rightarrow> [] | Some v \<Rightarrow> v)"

definition getEnvOrDefault :: "environ \<Rightarrow> string \<Rightarrow> string \<Rightarrow> string" where
  "getEnvOrDefault env key defaultValue =
     (let v = Getenv env key in if v = [] then defaultValue else v)"

subsection \<open>The standard library's \<open>fmt.Sscanf(value, "%d", &result)\<close>\<close>

text \<open>
  The scanner reads runes. \<open>space_width\<close> is the number of bytes of the white-space rune
  at the head of the input (0 when the head is no white space), for the runes of
  \<open>fmt\<close>'s table: U+0009..U+000D, U+0020, U+0085, U+00A0, U+1680, U+2000..U+200A,
  U+2028, U+2029, U+202F, U+205F, U+3000, in their UTF-8 encodings.
\<close>

definition space_width :: "nat list \<Rightarrow> nat" where
  "space_width bytes =
     (case bytes of
        [] \<Rightarrow> 0
      | b # bs \<Rightarrow>
         (if (9 \<le> b \<and> b \<le> 13) \<or> b = 32 then 1
          else if b = 194 then
            (case bs of c # _ \<Rightarrow> if c = 133 \<or> c = 160 then 2 else 0 | [] \<Rightarrow> 0)
          else if b = 225 then
            (case bs of c # d # _ \<Rightarrow> if c = 154 \<and> d = 128 then 3 else 0 | _ \<Rightarrow> 0)
          else if b = 226 then
            (case bs of c # d # _ \<Rightarrow>
               if c = 128 \<and> ((128 \<le> d \<and> d \<le> 138) \<or> d = 168 \<or> d = 169 \<or> d = 175) then 3
               else if c = 129 \<and> d = 159 then 3 else 0
             | _ \<Rightarrow> 0)
          else if b = 227 then
            (case bs of c # d # _ \<Rightarrow> if c = 128 \<and> d = 128 then 3 else 0 | _ \<Rightarrow> 0)
          else 0))"

text \<open>
  \<open>SkipSpace\<close> with \<open>nlIsSpace = false\<close>, as \<open>Sscanf\<close> sets it: white space is skipped,
  a newline is the scan error "unexpected newline" (\<open>None\<close>).
\<close>

fun SkipSpace :: "string \<Rightarrow> string option" where
  "SkipSpace [] = Some []"
| "SkipSpace (c # cs) =
     (if c = CHR 0x0A then None
      else if space_width (map of_char (c # cs)) = 0 then Some (c # cs)
      else SkipSpace (drop (space_width (map of_char (c # cs)) - 1) cs))"

definition is_digit :: "char \<Rightarrow> bool" where
  "is_digit c = (c \<in> set ''0123456789'')"

definition digit_value :: "char \<Rightarrow> int" where
  "digit_value c = of_char c - 48"

definition decimal :: "string \<Rightarrow> int" where
  "decimal ds = foldl (\<lambda>n c. 10 * n + digit_value c) 0 ds"

text \<open>
  \<open>scanInt\<close> for the verb \<open>%d\<close>: skip space, fail at the end of input, accept one sign,
  demand a digit, take all digits that follow, and hand the token to
  \<open>strconv.ParseInt(tok, 10, 64)\<close>, which fails outside the 64-bit range (the operand is
  an \<open>int\<close> of 64 bits). What follows the digits is left unread and is no error. \<open>None\<close>
  is a scan error: the operand is then not assigned.
\<close>

definition Sscanf_d :: "string \<Rightarrow> int option" where
  "Sscanf_d s =
     (case SkipSpace s of
        None \<Rightarrow> None
      | Some r \<Rightarrow>
         (let neg = (r \<noteq> [] \<and> hd r = CHR ''-'');
              r1 = (if r \<noteq> [] \<and> (hd r = CHR ''+'' \<or> hd r = CHR ''-'') then tl r else r);
              ds = takeWhile is_digit r1;
              v = (if neg then - decimal ds else decimal ds)
          in if ds = [] then None
             else if - (2 ^ 63) \<le> v \<and> v < 2 ^ 63 then Some v
             else None))"

subsection \<open>\<open>getEnvAsIntOrDefault\<close> and the tunables\<close>

definition getEnvAsIntOrDefault :: "environ \<Rightarrow> string \<Rightarrow> int \<Rightarrow> int" where
  "getEnvAsIntOrDefault env key defaultValue =
     (let v = Getenv env key in
      if v = [] then defaultValue
      else (let result = 0 in case Sscanf_d v of Some n \<Rightarrow> n | None \<Rightarrow> result))"

definition GITHUB_API :: "environ \<Rightarrow> string" where
  "GITHUB_API env = getEnvOrDefault env ''GITHUB_API'' ''https://api.github.com/search/code''"

definition MAX_RETRIES :: "environ \<Rightarrow> int" where
  "MAX_RETRIES env = getEnvAsIntOrDefault env ''MAX_RETRIES'' 2"

definition CONCURRENCY :: "environ \<Rightarrow> int" where
  "CONCURRENCY env = getEnvAsIntOrDefault env ''CONCURRENCY'' 3"

definition DB_PORT :: "environ \<Rightarrow> int" where
  "DB_PORT env = getEnvAsIntOrDefault env ''DB_PORT'' 5432"

text \<open>
  Reading a configured value. \<open>white ws\<close>: \<open>ws\<close> is made of white-space runes of
  \<open>fmt\<close>'s table, none of them a newline. \<open>int_prefix v ws sg ds rest\<close>: the value
  \<open>v\<close> starts, after the white space \<open>ws\<close>, with a decimal integer, made of the
  optional sign \<open>sg\<close> and the digits \<open>ds\<close>, as many as there are; \<open>rest\<close> is what
  follows it. \<open>signed_value sg ds\<close> is the integer so written.
\<close>

fun white :: "string \<Rightarrow> bool" where
  "white [] = True"
| "white (c # cs) =
     (c \<noteq> CHR 0x0A \<and> space_width (map of_char (c # cs)) \<noteq> 0 \<and>
      white (drop (space_width (map of_char (c # cs)) - 1) cs))"

definition int_prefix :: "string \<Rightarrow> string \<Rightarrow> string \<Rightarrow> string \<Rightarrow> string \<Rightarrow> bool" where
  "int_prefix v ws sg ds rest =
     (v = ws @ sg @ ds @ rest \<and> white ws \<and>
      (sg = [] \<or> sg = ''+'' \<or> sg = ''-'') \<and>
      ds \<noteq> [] \<and> list_all is_digit ds \<and>
      (rest = [] \<or> \<not> is_digit (hd rest)))"

definition signed_value :: "string \<Rightarrow> string \<Rightarrow> int" where
  "signed_value sg ds = (if sg = ''-'' then - decimal ds else decimal ds)"

text \<open>An environment with malformed settings, used to exercise the parser.\<close>

definition malformed_env :: environ where
  "malformed_env =
     [''MAX_RETRIES'' \<mapsto> ''12abc'', ''CONCURRENCY'' \<mapsto> ''x9'', ''DB_PORT'' \<mapsto> '' +five'',
      ''BACKOFF'' \<mapsto> ''  -7 seconds'', ''HUGE'' \<mapsto> ''9223372036854775808'',
      ''EMPTY'' \<mapsto> []]"

section \<open>Building the search query\<close>

text \<open>
  How a call ends: it returns, or \<open>log.Fatal\<close> ends the process, or the runtime panics.
\<close>

datatype 'a completion = Returns 'a | Fatal string | Panics string

text \<open>What a call returned, when it is known to have ended and it returned.\<close>

definition returned :: "'a completion option \<Rightarrow> 'a option" where
  "returned c = (case c of Some (Returns x) \<Rightarrow> Some x | _ \<Rightarrow> None)"

text \<open>\<open>fmt.Sprintf\<close> with \<open>%s\<close> verbs and string operands is concatenation.\<close>

definition buildGitHubSearchURL :: "string \<Rightarrow> string \<Rightarrow> string list \<Rightarrow> string completion" where
  "buildGitHubSearchURL api repo filenames =
     (if repo = [] then Fatal ''You should provide a repository name!''
      else
        (let url = api @ ''?q=repo:'' @ repo;
             url = foldl (\<lambda>url filename. url @ ''+filename:'' @ filename @ ''.json'') url filenames;
             url = (if length filenames = 0 then url @ ''+extension:json'' else url)
         in Returns url))"

text \<open>The terms of a query are its pieces between \<open>+\<close> signs.\<close>

fun query_terms :: "string \<Rightarrow> string list" where
  "query_terms [] = [[]]"
| "query_terms (c # cs) =
     (if c = CHR ''+'' then [] # query_terms cs
      else (case query_terms cs of t # ts \<Rightarrow> (c # t) # ts | [] \<Rightarrow> [[c]]))"


section \<open>Data model\<close>

text \<open>An instant of \<open>time.Time\<close>, as a number of ticks.\<close>

type_synonym time = int

record Vulnerabality =
  ID :: string
  Severity :: string
  Cvss :: real
  Status :: string
  PackageName :: string
  CurrentVersion :: string
  FixedVersion :: string
  Description :: string
  PublishedDate :: time
  Link :: string
  RiskFactors :: "string list"
  SourceFile :: string
  ScanTime :: time

record DatabaseConfig =
  Host :: string
  Port :: int
  User :: string
  Password :: string
  DBName :: string

text \<open>The element type of \<open>SearchResponse.Items\<close>, an anonymous struct in the source.\<close>

record Item =
  Name :: string
  Path :: string
  URL :: string

record SearchResponse =
  TotalCount :: int
  Items :: "Item list"

record ScanResults =
  Vulnerabilities :: "Vulnerabality list"

record ScanPayloads =
  ScanResults :: ScanResults

record ScanResult =
  ProcessedFiles :: int
  ScanTime :: time
  SourceRepo :: string
  SourceFiles :: "string list"

subsection \<open>Errors\<close>

text \<open>
  Go \<open>error\<close> values, by the place that makes them. \<open>Opaque\<close> is an error of a library
  (\<open>net/http\<close>, \<open>io\<close>, \<open>encoding/json\<close>, \<open>database/sql\<close>); the others are the
  \<open>fmt.Errorf\<close> and \<open>errors.New\<close> calls of the service, with their operands in the
  order of the format string. A \<open>%w\<close> operand that may be nil is an option.
\<close>

datatype error =
    Opaque string
  | StatusError nat string
  | SearchFailed int "error option"
  | DownloadFailed int error
  | ParseFailed error string
  | SaveFailed error
  | ProcessingError string error
  | AllFailed error
  | TokenMissing
  | ConnectFailed error

subsection \<open>What the service calls and what answers it\<close>

text \<open>
  One HTTP attempt: \<open>http.NewRequest\<close> fails, or \<open>client.Do\<close> fails, or a response
  arrives with its status code, the bytes \<open>io.ReadAll\<close> returns for its body and the
  error \<open>io.ReadAll\<close> returns with them.
\<close>

datatype http_outcome =
    NewRequestFails error
  | DoFails error
  | Responds nat string "error option"

text \<open>
  The calls that leave the service, in the order they are made. Log output
  (\<open>log.Print\<close>, \<open>log.Printf\<close>, \<open>println\<close>) is not recorded.
\<close>

datatype event =
    Sleep int
  | NewRequest string
  | Do string "(string \<times> string) list"
  | ReadAll
  | UnmarshalSearch string
  | UnmarshalFile string
  | Now
  | Save "Vulnerabality list"
  | Query string
  | Connect DatabaseConfig

text \<open>The \<open>dbRepository\<close> interface: what each method answers.\<close>

record dbRepository =
  SaveVulnerabilities :: "Vulnerabality list \<Rightarrow> error option"
  GetVulnerabilities :: "string \<Rightarrow> Vulnerabality list \<times> error option"
  Close :: "error option"

text \<open>
  The surroundings of one run: what the remote end answers to the search request at each
  attempt and to the request for the file of each work unit (numbered by position in the
  item list) at each attempt, what \<open>json.Unmarshal\<close> makes of a search response (it
  writes into the \<open>response\<close> variable it is given) and of a file, what \<open>time.Now\<close>
  reads in each work unit and when the summary is built, and what
  \<open>repo.NewPostgresRepo\<close> returns.
\<close>

record world =
  search_http :: "int \<Rightarrow> http_outcome"
  file_http :: "nat \<Rightarrow> int \<Rightarrow> http_outcome"
  unmarshal_search :: "string \<Rightarrow> SearchResponse \<Rightarrow> error option \<times> SearchResponse"
  unmarshal_file :: "string \<Rightarrow> error option \<times> ScanPayloads list"
  now_file :: "nat \<Rightarrow> time"
  now_result :: time
  NewPostgresRepo :: "DatabaseConfig \<Rightarrow> dbRepository \<times> error option"

text \<open>The package-level tunables, read once when the package is initialised.\<close>

record tunables =
  github_api :: string
  max_retries :: int
  concurrency :: int

definition tunables_of :: "environ \<Rightarrow> tunables" where
  "tunables_of env =
     \<lparr>github_api = GITHUB_API env, max_retries = MAX_RETRIES env, concurrency = CONCURRENCY env\<rparr>"

section \<open>Searching\<close>

text \<open>
  The variables of \<open>searchGitHubFiles\<close> that outlive a loop iteration: \<open>response\<close> and
  the \<open>err\<close> declared before the loop. Inside the loop body \<open>req, err := ...\<close> declares
  a new \<open>err\<close>, and every later assignment in the body goes to that one.
\<close>

record search_vars =
  response :: SearchResponse
  search_err :: "error option"

definition search_headers :: "string \<Rightarrow> (string \<times> string) list" where
  "search_headers token = [(''Authorization'', ''Bearer '' @ token)]"

text \<open>
  The retry loop of \<open>searchGitHubFiles\<close>, from \<open>attempt\<close> on. \<open>Inr items\<close> is the
  \<open>return response.Items, nil\<close> inside the loop; \<open>Inl vars\<close> is the loop running out.
\<close>

function search_loop ::
  "int \<Rightarrow> world \<Rightarrow> string \<Rightarrow> string \<Rightarrow> int \<Rightarrow> search_vars \<Rightarrow> event list \<Rightarrow>
   (search_vars + Item list) \<times> event list" where
  "search_loop maxr w url token attempt vars evs =
     (if attempt \<le> maxr then
        (let evs = (if attempt > 0 then evs @ [Sleep attempt] else evs);
             evs = evs @ [NewRequest url]
         in case search_http w attempt of
              NewRequestFails e \<Rightarrow> search_loop maxr w url token (attempt + 1) vars evs
            | DoFails e \<Rightarrow>
                search_loop maxr w url token (attempt + 1) vars
                  (evs @ [Do url (search_headers token)])
            | Responds code body rerr \<Rightarrow>
                (let evs = evs @ [Do url (search_headers token), ReadAll] in
                 if code \<noteq> 200 then
                   (let err = Some (StatusError code body) in
                    search_loop maxr w url token (attempt + 1) vars evs)
                 else
                   (case rerr of
                      Some e \<Rightarrow> search_loop maxr w url token (attempt + 1) vars evs
                    | None \<Rightarrow>
                       (case unmarshal_search w body (response vars) of
                          (Some e, r) \<Rightarrow>
                            search_loop maxr w url token (attempt + 1) (vars\<lparr>response := r\<rparr>)
                              (evs @ [UnmarshalSearch body])
                        | (None, r) \<Rightarrow> (Inr (Items r), evs @ [UnmarshalSearch body])))))
      else (Inl vars, evs))"
  by pat_completeness auto
termination
  by (relation "measure (\<lambda>(maxr, w, url, token, attempt, vars, evs). nat (maxr + 1 - attempt))") auto

declare search_loop.simps [simp del]

definition searchGitHubFiles ::
  "int \<Rightarrow> world \<Rightarrow> string \<Rightarrow> string \<Rightarrow> (error + Item list) \<times> event list" where
  "searchGitHubFiles maxr w url token =
     (let vars = \<lparr>response = \<lparr>TotalCount = 0, Items = []\<rparr>, search_err = None\<rparr>
      in case search_loop maxr w url token 0 vars [] of
           (Inr items, evs) \<Rightarrow> (Inr items, evs)
         | (Inl vars, evs) \<Rightarrow> (Inl (SearchFailed (maxr + 1) (search_err vars)), evs))"

section \<open>Processing one file\<close>

text \<open>
  The variables of \<open>processFile\<close> that outlive a loop iteration: \<open>data\<close> and the \<open>err\<close>
  declared before the loop. As in the search, \<open>req, err := ...\<close> at the top of the loop
  body declares a new \<open>err\<close>; \<open>data, err = io.ReadAll(res.Body)\<close> assigns the outer
  \<open>data\<close> and the inner \<open>err\<close>.
\<close>

record file_vars =
  data :: string
  err :: "error option"

definition file_headers :: "string \<Rightarrow> (string \<times> string) list" where
  "file_headers token =
     [(''Authorization'', ''Bearer '' @ token), (''Accept'', ''application/vnd.github.v3.raw'')]"

function download_loop ::
  "int \<Rightarrow> (int \<Rightarrow> http_outcome) \<Rightarrow> Item \<Rightarrow> string \<Rightarrow> int \<Rightarrow> file_vars \<Rightarrow> event list \<Rightarrow>
   file_vars \<times> event list" where
  "download_loop maxr http item token attempt vars evs =
     (if attempt \<le> maxr then
        (let evs = (if attempt > 0 then evs @ [Sleep attempt] else evs);
             evs = evs @ [NewRequest (URL item)]
         in case http attempt of
              NewRequestFails e \<Rightarrow> download_loop maxr http item token (attempt + 1) vars evs
            | DoFails e \<Rightarrow>
                download_loop maxr http item token (attempt + 1) vars
                  (evs @ [Do (URL item) (file_headers token)])
            | Responds code body rerr \<Rightarrow>
                (let evs = evs @ [Do (URL item) (file_headers token), ReadAll] in
                 if code \<noteq> 200 then
                   (let err = Some (StatusError code body) in
                    download_loop maxr http item token (attempt + 1) vars evs)
                 else
                   (case rerr of
                      Some e \<Rightarrow>
                        download_loop maxr http item token (attempt + 1) (vars\<lparr>data := body\<rparr>) evs
                    | None \<Rightarrow> (vars\<lparr>data := body\<rparr>, evs))))
      else (vars, evs))"
  by pat_completeness auto
termination
  by (relation "measure (\<lambda>(maxr, http, item, token, attempt, vars, evs). nat (maxr + 1 - attempt))")
     auto

declare download_loop.simps [simp del]

text \<open>Lines 343 to 353: the metadata is written into a copy of each record.\<close>

definition add_metadata :: "Item \<Rightarrow> time \<Rightarrow> ScanPayloads list \<Rightarrow> Vulnerabality list" where
  "add_metadata item scanTime fileContent =
     foldl (\<lambda>vulnerabilities scanResult.
              if length (Vulnerabilities (ScanResults scanResult)) = 0 then vulnerabilities
              else foldl (\<lambda>vulnerabilities payload.
                            vulnerabilities @
                              [payload\<lparr>SourceFile := Path item, Vulnerabality.ScanTime := scanTime\<rparr>])
                     vulnerabilities (Vulnerabilities (ScanResults scanResult)))
       [] fileContent"

text \<open>
  \<open>processFile\<close> for the work unit at position \<open>i\<close>, with the database the global
  \<open>database\<close> holds. The result is the returned error (\<open>None\<close> is \<open>nil\<close>) and the calls
  made.
\<close>

definition processFile ::
  "int \<Rightarrow> world \<Rightarrow> dbRepository \<Rightarrow> nat \<Rightarrow> Item \<Rightarrow> string \<Rightarrow> error option \<times> event list" where
  "processFile maxr w db i item token =
     (let vars = \<lparr>data = [], err = None\<rparr>;
          (vars, evs) = download_loop maxr (file_http w i) item token 0 vars []
      in case err vars of
           Some e \<Rightarrow> (Some (DownloadFailed (maxr + 1) e), evs)
         | None \<Rightarrow>
            (let (uerr, fileContent) = unmarshal_file w (data vars);
                 evs = evs @ [UnmarshalFile (data vars)]
             in case uerr of
                  Some e \<Rightarrow> (Some (ParseFailed e (data vars)), evs)
                | None \<Rightarrow>
                   (let scanTime = now_file w i;
                        evs = evs @ [Now];
                        vulnerabilities = add_metadata item scanTime fileContent
                    in if length vulnerabilities > 0 then
                         (case SaveVulnerabilities db vulnerabilities of
                            Some e \<Rightarrow> (Some (SaveFailed e), evs @ [Save vulnerabilities])
                          | None \<Rightarrow> (None, evs @ [Save vulnerabilities]))
                       else (None, evs))))"

section \<open>Processing the files in parallel\<close>

text \<open>
  The goroutines of \<open>processFilesInParallel\<close> as a transition system. A state holds the
  items the \<open>for\<close> loop has not reached yet (with their positions), the number of
  tokens in the channel \<open>pool\<close>, the counter of the wait group, the units whose
  goroutine has been started and has not yet recorded an outcome (\<open>working\<close>: inside
  \<open>processFile\<close> or waiting for the mutex), the units that have recorded their outcome
  and still hold their token (\<open>leaving\<close>: the deferred calls have not run), the two
  shared slices, and the calls made so far.
\<close>

record pool_state =
  todo :: "(nat \<times> Item) list"
  pool :: nat
  wg :: nat
  working :: "(nat \<times> Item) list"
  leaving :: "nat list"
  processedFiles :: "string list"
  errorsOccurred :: "error list"
  trace :: "event list"

text \<open>
  \<open>Submit\<close> is one iteration of the loop in the submitting goroutine: \<open>wg.Add(1)\<close>,
  the send \<open>pool <- struct{}{}\<close> and the \<open>go\<close> statement. The send on a channel of
  capacity \<open>cap\<close> proceeds only while fewer than \<open>cap\<close> tokens are buffered; no
  goroutine is ever waiting to receive, so with capacity 0 it never proceeds.
  \<open>Finish i\<close> is unit \<open>i\<close> returning from \<open>processFile\<close> and recording the outcome
  under the mutex. \<open>Release i\<close> is its deferred \<open><-pool\<close> and \<open>wg.Done()\<close>.
\<close>

datatype action = Submit | Finish nat | Release nat

definition record_outcome :: "Item \<Rightarrow> error option \<Rightarrow> pool_state \<Rightarrow> pool_state" where
  "record_outcome item e s =
     (case e of
        Some e \<Rightarrow> s\<lparr>errorsOccurred := errorsOccurred s @ [ProcessingError (Path item) e]\<rparr>
      | None \<Rightarrow> s\<lparr>processedFiles := processedFiles s @ [Path item]\<rparr>)"

definition step ::
  "int \<Rightarrow> world \<Rightarrow> dbRepository \<Rightarrow> string \<Rightarrow> nat \<Rightarrow> pool_state \<Rightarrow> action \<Rightarrow> pool_state option" where
  "step maxr w db token cap s a =
     (case a of
        Submit \<Rightarrow>
          (case todo s of
             [] \<Rightarrow> None
           | (i, item) # rest \<Rightarrow>
               if pool s < cap
               then Some (s\<lparr>todo := rest, wg := wg s + 1, pool := pool s + 1,
                            working := working s @ [(i, item)]\<rparr>)
               else None)
      | Finish i \<Rightarrow>
          (case map_of (working s) i of
             None \<Rightarrow> None
           | Some item \<Rightarrow>
               (let (e, evs) = processFile maxr w db i item token
                in Some (record_outcome item e
                           (s\<lparr>working := filter (\<lambda>u. fst u \<noteq> i) (working s),
                              leaving := leaving s @ [i],
                              trace := trace s @ evs\<rparr>))))
      | Release i \<Rightarrow>
          (if i \<in> set (leaving s)
           then Some (s\<lparr>leaving := remove1 i (leaving s), pool := pool s - 1, wg := wg s - 1\<rparr>)
           else None))"

fun run ::
  "int \<Rightarrow> world \<Rightarrow> dbRepository \<Rightarrow> string \<Rightarrow> nat \<Rightarrow> pool_state \<Rightarrow> action list \<Rightarrow>
   pool_state option" where
  "run maxr w db token cap s [] = Some s"
| "run maxr w db token cap s (a # as) =
     (case step maxr w db token cap s a of
        None \<Rightarrow> None
      | Some s' \<Rightarrow> run maxr w db token cap s' as)"

definition initial :: "Item list \<Rightarrow> pool_state" where
  "initial items =
     \<lparr>todo = enumerate 0 items, pool = 0, wg = 0, working = [], leaving = [],
      processedFiles = [], errorsOccurred = [], trace = []\<rparr>"

text \<open>
  \<open>processFilesInParallel\<close> under a schedule, the order in which the goroutines take
  their steps. \<open>make\<close> panics on a negative capacity. \<open>None\<close>: the schedule is not a
  complete run (a step in it cannot be taken, or the loop has not ended, or \<open>wg.Wait()\<close>
  has not returned at its end). After \<open>wg.Wait()\<close>, \<open>errorsOccurred[0]\<close> panics on an
  empty slice.
\<close>

definition processFilesInParallel ::
  "tunables \<Rightarrow> world \<Rightarrow> dbRepository \<Rightarrow> Item list \<Rightarrow> string \<Rightarrow> string \<Rightarrow> action list \<Rightarrow>
   ((error + ScanResult) \<times> event list) completion option" where
  "processFilesInParallel t w db items token repoName sched =
     (if concurrency t < 0 then Some (Panics ''makechan: size out of range'')
      else
        (case run (max_retries t) w db token (nat (concurrency t)) (initial items) sched of
           None \<Rightarrow> None
         | Some s \<Rightarrow>
             if todo s \<noteq> [] \<or> wg s \<noteq> 0 then None
             else if length (errorsOccurred s) = length items then
               (case errorsOccurred s of
                  [] \<Rightarrow> Some (Panics ''index out of range [0] with length 0'')
                | e # _ \<Rightarrow> Some (Returns (Inl (AllFailed e), trace s)))
             else
               Some (Returns
                 (Inr \<lparr>ProcessedFiles = int (length (processedFiles s)),
                       ScanTime = now_result w,
                       SourceRepo = repoName,
                       SourceFiles = processedFiles s\<rparr>,
                  trace s @ [Now]))))"

section \<open>The service operations\<close>

definition InitDatabase :: "world \<Rightarrow> environ \<Rightarrow> (error + dbRepository) \<times> event list" where
  "InitDatabase w env =
     (let dbConfig =
            \<lparr>Host = getEnvOrDefault env ''DB_HOST'' ''localhost'',
             Port = getEnvAsIntOrDefault env ''DB_PORT'' 5432,
             User = getEnvOrDefault env ''DB_USER'' ''postgres'',
             Password = getEnvOrDefault env ''DB_PASSWORD'' ''postgres'',
             DBName = getEnvOrDefault env ''DB_NAME'' []\<rparr>
      in case NewPostgresRepo w dbConfig of
           (db, Some e) \<Rightarrow> (Inl (ConnectFailed e), [Connect dbConfig])
         | (db, None) \<Rightarrow> (Inr db, [Connect dbConfig]))"

text \<open>
  \<open>Scan\<close>, from the global \<open>database\<close> (\<open>None\<close> is nil) and the environment at the time
  of the call. The result is what is returned, the global \<open>database\<close> afterwards and the
  calls made.
\<close>

definition Scan ::
  "tunables \<Rightarrow> world \<Rightarrow> environ \<Rightarrow> dbRepository option \<Rightarrow> string \<Rightarrow> string list \<Rightarrow> action list \<Rightarrow>
   ((error + ScanResult) \<times> dbRepository option \<times> event list) completion option" where
  "Scan t w env database repoName filenames sched =
     (case (case database of
              None \<Rightarrow> InitDatabase w env
            | Some db \<Rightarrow> (Inr db, [])) of
        (Inl e, evs) \<Rightarrow> Some (Returns (Inl e, database, evs))
      | (Inr db, evs) \<Rightarrow>
         (let token = Getenv env ''GITHUB_API_TOKEN'' in
          if token = [] then Some (Returns (Inl TokenMissing, Some db, evs))
          else
            (case buildGitHubSearchURL (github_api t) repoName filenames of
               Fatal m \<Rightarrow> Some (Fatal m)
             | Panics m \<Rightarrow> Some (Panics m)
             | Returns url \<Rightarrow>
                (case searchGitHubFiles (max_retries t) w url token of
                   (Inl e, sevs) \<Rightarrow> Some (Returns (Inl e, Some db, evs @ sevs))
                 | (Inr items, sevs) \<Rightarrow>
                    if length items = 0 then
                      Some (Returns
                        (Inr \<lparr>ProcessedFiles = 0, ScanTime = now_result w,
                              SourceRepo = repoName, SourceFiles = []\<rparr>,
                         Some db, evs @ sevs @ [Now]))
                    else
                      (case processFilesInParallel t w db items token repoName sched of
                         None \<Rightarrow> None
                       | Some (Fatal m) \<Rightarrow> Some (Fatal m)
                       | Some (Panics m) \<Rightarrow> Some (Panics m)
                       | Some (Returns (r, pevs)) \<Rightarrow>
                           Some (Returns (r, Some db, evs @ sevs @ pevs)))))))"

text \<open>The result and the calls of a \<open>Scan\<close> that returned.\<close>

definition scan_result ::
  "((error + ScanResult) \<times> dbRepository option \<times> event list) completion option \<Rightarrow>
   (error + ScanResult) option" where
  "scan_result c = map_option fst (returned c)"

definition scan_trace ::
  "((error + ScanResult) \<times> dbRepository option \<times> event list) completion option \<Rightarrow> event list" where
  "scan_trace c = (case returned c of Some (r, db, evs) \<Rightarrow> evs | None \<Rightarrow> [])"

text \<open>\<open>Filter\<close>: the returned pair, the global \<open>database\<close> afterwards and the calls made.\<close>

definition Filter ::
  "world \<Rightarrow> environ \<Rightarrow> dbRepository option \<Rightarrow> string \<Rightarrow>
   (Vulnerabality list \<times> error option) \<times> dbRepository option \<times> event list" where
  "Filter w env database severity =
     (case (case database of
              None \<Rightarrow> InitDatabase w env
            | Some db \<Rightarrow> (Inr db, [])) of
        (Inl e, evs) \<Rightarrow> (([], Some e), database, evs)
      | (Inr db, evs) \<Rightarrow>
         (case GetVulnerabilities db severity of
            (vulnerabilities, Some e) \<Rightarrow> (([], None), Some db, evs @ [Query severity])
          | (vulnerabilities, None) \<Rightarrow> ((vulnerabilities, None), Some db, evs @ [Query severity])))"

section \<open>The test double of the repository\<close>

text \<open>
  \<open>MockRepository\<close> of the service's tests. Its \<open>SaveVulnerabilities\<close> also appends
  to \<open>savedVulnerabilities\<close>; the batches saved are read from the \<open>Save\<close> calls.
\<close>

record MockRepository =
  vulnerabilitiesToReturn :: "Vulnerabality list"
  mock_err :: "error option"

definition mock_db :: "MockRepository \<Rightarrow> dbRepository" where
  "mock_db m =
     \<lparr>SaveVulnerabilities = (\<lambda>vulnerabilities. mock_err m),
      GetVulnerabilities =
        (\<lambda>severity.
           case mock_err m of
             Some e \<Rightarrow> ([], Some e)
           | None \<Rightarrow> (filter (\<lambda>v. Severity v = severity) (vulnerabilitiesToReturn m), None)),
      Close = None\<rparr>"

section \<open>Reading a trace\<close>

fun sleep_of :: "event \<Rightarrow> int option" where
  "sleep_of (Sleep d) = Some d"
| "sleep_of _ = None"

fun request_of :: "event \<Rightarrow> string option" where
  "request_of (NewRequest u) = Some u"
| "request_of _ = None"

fun saved_of :: "event \<Rightarrow> Vulnerabality list" where
  "saved_of (Save vs) = vs"
| "saved_of _ = []"

fun is_pacing :: "event \<Rightarrow> bool" where
  "is_pacing (Sleep d) = True"
| "is_pacing (NewRequest u) = True"
| "is_pacing _ = False"

fun is_file_work :: "event \<Rightarrow> bool" where
  "is_file_work (UnmarshalFile b) = True"
| "is_file_work (Save vs) = True"
| "is_file_work _ = False"

text \<open>The payload that an error shows, if it is (or wraps) a parse error.\<close>

fun payload_view :: "error \<Rightarrow> string option" where
  "payload_view (ParseFailed e d) = Some d"
| "payload_view (ProcessingError p e) = payload_view e"
| "payload_view _ = None"

text \<open>The waits, the attempts, and the records handed to storage, in order.\<close>

definition sleeps :: "event list \<Rightarrow> int list" where
  "sleeps evs = List.map_filter sleep_of evs"

definition attempts :: "event list \<Rightarrow> string list" where
  "attempts evs = List.map_filter request_of evs"

definition saved_records :: "event list \<Rightarrow> Vulnerabality list" where
  "saved_records evs = concat (map saved_of evs)"

text \<open>
  The pacing of a retry loop on \<open>url\<close> from attempt \<open>a\<close> to attempt \<open>maxr\<close>: a wait of
  \<open>k\<close> seconds before attempt \<open>k\<close>, none before attempt 0.
\<close>

definition pacing :: "string \<Rightarrow> int \<Rightarrow> int \<Rightarrow> event list" where
  "pacing url a maxr =
     concat (map (\<lambda>k. (if k > 0 then [Sleep k] else []) @ [NewRequest url]) [a..maxr])"

text \<open>An attempt of the file loop that sends it round again; one of the search loop.\<close>

fun file_attempt_fails :: "http_outcome \<Rightarrow> bool" where
  "file_attempt_fails (Responds code body rerr) = (code \<noteq> 200 \<or> rerr \<noteq> None)"
| "file_attempt_fails _ = True"

fun search_attempt_fails :: "world \<Rightarrow> http_outcome \<Rightarrow> bool" where
  "search_attempt_fails w (Responds code body rerr) =
     (code \<noteq> 200 \<or> rerr \<noteq> None \<or> (\<forall>r. fst (unmarshal_search w body r) \<noteq> None))"
| "search_attempt_fails w _ = True"

section \<open>Sample surroundings\<close>

text \<open>
  Concrete surroundings on which the operations are run below. The answers of
  \<open>encoding/json\<close> are given for the byte strings that occur: the empty input is the
  syntax error "unexpected end of JSON input", \<open>[]\<close> is an empty list of blocks.
\<close>

definition cve_1234 :: Vulnerabality where
  "cve_1234 =
     \<lparr>ID = ''CVE-2024-1234'', Severity = ''HIGH'', Cvss = 0, Status = [], PackageName = [],
      CurrentVersion = [], FixedVersion = [], Description = [], PublishedDate = 0, Link = [],
      RiskFactors = [], SourceFile = [], Vulnerabality.ScanTime = 0\<rparr>"

definition file_json :: string where
  \<open>file_json = ''[{"scanResults":{"vulnerabilities":[{"id":"CVE-2024-1234","severity":"HIGH"}]}}]''\<close>

definition garbage :: string where
  "garbage = ''<html><body>Service temporarily unavailable, try again later</body></html>''"

definition sample_unmarshal_file :: "string \<Rightarrow> error option \<times> ScanPayloads list" where
  "sample_unmarshal_file bytes =
     (if bytes = [] then (Some (Opaque ''unexpected end of JSON input''), [])
      else if bytes = ''[]'' then (None, [])
      else if bytes = file_json
        then (None, [\<lparr>ScanResults = \<lparr>Vulnerabilities = [cve_1234]\<rparr>\<rparr>])
      else (Some (Opaque ''invalid character looking for beginning of value''), []))"

definition item_a :: Item where
  "item_a = \<lparr>Name = ''a.json'', Path = ''scans/a.json'', URL = ''https://host/a''\<rparr>"

definition item_b :: Item where
  "item_b = \<lparr>Name = ''b.json'', Path = ''scans/b.json'', URL = ''https://host/b''\<rparr>"

definition search_json :: string where
  \<open>search_json = ''{"total_count":2,"items":[{"name":"a.json","path":"scans/a.json","url":"https://host/a"},{"name":"b.json","path":"scans/b.json","url":"https://host/b"}]}''\<close>

definition empty_search_json :: string where
  \<open>empty_search_json = ''{"total_count":0,"items":[]}''\<close>

definition sample_unmarshal_search ::
  "string \<Rightarrow> SearchResponse \<Rightarrow> error option \<times> SearchResponse" where
  "sample_unmarshal_search bytes r =
     (if bytes = search_json then (None, \<lparr>TotalCount = 2, Items = [item_a, item_b]\<rparr>)
      else if bytes = empty_search_json then (None, \<lparr>TotalCount = 0, Items = []\<rparr>)
      else (Some (Opaque ''invalid character looking for beginning of value''), r))"

definition healthy_db :: dbRepository where
  "healthy_db = mock_db \<lparr>vulnerabilitiesToReturn = [], mock_err = None\<rparr>"

text \<open>
  Two files are found and each is served at once; the clock reads 100 in the first
  unit, 200 in the second, and 300 when the summary is built.
\<close>

definition sample_world :: world where
  "sample_world =
     \<lparr>search_http = (\<lambda>attempt. Responds 200 search_json None),
      file_http = (\<lambda>i attempt. Responds 200 file_json None),
      unmarshal_search = sample_unmarshal_search,
      unmarshal_file = sample_unmarshal_file,
      now_file = (\<lambda>i. 100 + 100 * int i),
      now_result = 300,
      NewPostgresRepo = (\<lambda>config. (healthy_db, None))\<rparr>"

definition sample_env :: environ where
  "sample_env = [''GITHUB_API_TOKEN'' \<mapsto> ''t0ken'']"

definition default_tunables :: tunables where
  "default_tunables = tunables_of Map.empty"

text \<open>Every request for a file is answered with status 500.\<close>

definition status_500_world :: world where
  "status_500_world =
     sample_world\<lparr>file_http := (\<lambda>i attempt. Responds 500 ''Internal Server Error'' None)\<rparr>"

text \<open>
  Every request for a file is answered with status 200, and the connection breaks after
  the two bytes \<open>[]\<close> of the body: \<open>io.ReadAll\<close> returns these bytes and an error.
\<close>

definition short_read_world :: world where
  "short_read_world =
     sample_world\<lparr>file_http := (\<lambda>i attempt. Responds 200 ''[]'' (Some (Opaque ''unexpected EOF'')))\<rparr>"

text \<open>The first request for a file times out, the second is answered with a page of HTML.\<close>

definition garbage_world :: world where
  "garbage_world =
     sample_world\<lparr>file_http := (\<lambda>i attempt.
        if attempt = 0 then DoFails (Opaque ''context deadline exceeded'')
        else Responds 200 garbage None)\<rparr>"

definition item_c :: Item where
  "item_c = \<lparr>Name = ''c.json'', Path = ''scans/c.json'', URL = ''https://host/c''\<rparr>"

text \<open>Of three files the second holds a page of HTML; the other two are well-formed.\<close>

definition mixed_world :: world where
  "mixed_world =
     sample_world\<lparr>file_http := (\<lambda>i attempt.
        if i = 1 then Responds 200 garbage None else Responds 200 file_json None)\<rparr>"

text \<open>The search succeeds at the second attempt and finds nothing.\<close>

definition no_items_world :: world where
  "no_items_world =
     sample_world\<lparr>search_http := (\<lambda>attempt.
        if attempt = 0 then Responds 502 ''Bad Gateway'' None
        else Responds 200 empty_search_json None)\<rparr>"

text \<open>A repository whose every call fails, as the test double does once \<open>err\<close> is set.\<close>

definition broken_db :: dbRepository where
  "broken_db =
     mock_db \<lparr>vulnerabilitiesToReturn = [cve_1234],
              mock_err = Some (Opaque ''dial tcp 127.0.0.1:5432: connect: connection refused'')\<rparr>"

section \<open>Invariants of the parallel phase\<close>

text \<open>What a unit contributes to the two shared slices once it has finished.\<close>

definition unit_path :: "int \<Rightarrow> world \<Rightarrow> dbRepository \<Rightarrow> string \<Rightarrow> nat \<times> Item \<Rightarrow> string list" where
  "unit_path maxr w db token u =
     (case fst (processFile maxr w db (fst u) (snd u) token) of
        None \<Rightarrow> [Path (snd u)]
      | Some e \<Rightarrow> [])"

definition unit_error :: "int \<Rightarrow> world \<Rightarrow> dbRepository \<Rightarrow> string \<Rightarrow> nat \<times> Item \<Rightarrow> error list" where
  "unit_error maxr w db token u =
     (case fst (processFile maxr w db (fst u) (snd u) token) of
        None \<Rightarrow> []
      | Some e \<Rightarrow> [ProcessingError (Path (snd u)) e])"

text \<open>
  Every token in the channel belongs to a started unit that has not released it, the
  wait group counts the same units, and the channel never holds more than its capacity.
\<close>

definition inv_count :: "nat \<Rightarrow> pool_state \<Rightarrow> bool" where
  "inv_count cap s =
     (pool s = length (working s) + length (leaving s) \<and> wg s = pool s \<and> pool s \<le> cap)"

text \<open>
  The units not yet recorded are units of the item list, each once; together with what
  the slices hold they account for every unit.
\<close>

definition inv_units ::
  "int \<Rightarrow> world \<Rightarrow> dbRepository \<Rightarrow> string \<Rightarrow> Item list \<Rightarrow> pool_state \<Rightarrow> bool" where
  "inv_units maxr w db token items s =
     (distinct (map fst (todo s @ working s)) \<and>
      set (todo s @ working s) \<subseteq> set (enumerate 0 items) \<and>
      mset (processedFiles s) + mset (concat (map (unit_path maxr w db token) (todo s @ working s)))
        = mset (concat (map (unit_path maxr w db token) (enumerate 0 items))) \<and>
      mset (errorsOccurred s) + mset (concat (map (unit_error maxr w db token) (todo s @ working s)))
        = mset (concat (map (unit_error maxr w db token) (enumerate 0 items))))"

text \<open>Every record handed to storage carries the path and the clock reading of a unit.\<close>

definition stamped :: "world \<Rightarrow> Item list \<Rightarrow> Vulnerabality \<Rightarrow> bool" where
  "stamped w items v =
     (\<exists>u \<in> set (enumerate 0 items).
        SourceFile v = Path (snd u) \<and> Vulnerabality.ScanTime v = now_file w (fst u))"

text \<open>The schedule that runs the units one after the other.\<close>

definition sequential :: "nat \<Rightarrow> nat \<Rightarrow> action list" where
  "sequential k n = concat (map (\<lambda>i. [Submit, Finish i, Release i]) [k..<k + n])"

section \<open>Facts about the configuration parser\<close>

lemma SkipSpace_suffix: "SkipSpace s = Some r \<Longrightarrow> set r \<subseteq> set s"
proof (induction s arbitrary: r rule: SkipSpace.induct)
  case 1
  then show ?case by simp
next
  case (2 c cs)
  show ?case
  proof (cases "c = CHR 0x0A")
    case True
    with 2 show ?thesis by simp
  next
    case nl: False
    show ?thesis
    proof (cases "space_width (map of_char (c # cs)) = 0")
      case True
      with nl 2 show ?thesis by simp
    next
      case False
      with nl 2 have "SkipSpace (drop (space_width (map of_char (c # cs)) - 1) cs) = Some r"
        by simp
      with 2(1)[OF nl False]
      have "set r \<subseteq> set (drop (space_width (map of_char (c # cs)) - 1) cs)" by simp
      then show ?thesis using set_drop_subset by fastforce
    qed
  qed
qed

lemma SkipSpace_nonspace:
  "s \<noteq> [] \<Longrightarrow> hd s \<noteq> CHR 0x0A \<Longrightarrow> space_width (map of_char s) = 0 \<Longrightarrow>
   SkipSpace s = Some s"
  by (cases s) simp_all

lemma Sscanf_d_no_digit: "\<forall>c \<in> set v. \<not> is_digit c \<Longrightarrow> Sscanf_d v = None"
proof (cases "SkipSpace v")
  case None
  then show ?thesis by (simp add: Sscanf_d_def)
next
  case (Some r)
  assume nd: "\<forall>c \<in> set v. \<not> is_digit c"
  from Some have sub: "set r \<subseteq> set v" by (rule SkipSpace_suffix)
  let ?r1 = "if r \<noteq> [] \<and> (hd r = CHR ''+'' \<or> hd r = CHR ''-'') then tl r else r"
  have "set ?r1 \<subseteq> set r" by (cases r) auto
  with sub nd have "\<forall>c \<in> set ?r1. \<not> is_digit c" by blast
  then have "takeWhile is_digit ?r1 = []" by (cases ?r1) auto
  with Some show ?thesis by (simp add: Sscanf_d_def Let_def)
qed

lemma Sscanf_d_bad_start:
  assumes "v \<noteq> []" "\<not> is_digit (hd v)" "hd v \<noteq> CHR ''+''" "hd v \<noteq> CHR ''-''"
    "hd v \<noteq> CHR 0x0A" "space_width (map of_char v) = 0"
  shows "Sscanf_d v = None"
proof -
  from assms have "SkipSpace v = Some v" by (simp add: SkipSpace_nonspace)
  moreover from assms have "takeWhile is_digit v = []" by (cases v) auto
  ultimately show ?thesis using assms by (simp add: Sscanf_d_def Let_def)
qed

subsection \<open>White space and the integer at the start of a value\<close>

lemma space_width_1: "(9 \<le> a \<and> a \<le> 13) \<or> a = 32 \<Longrightarrow> space_width (a # bs) = 1"
  by (simp add: space_width_def)

lemma space_width_2: "a = 194 \<Longrightarrow> b = 133 \<or> b = 160 \<Longrightarrow> space_width (a # b # bs) = 2"
  by (simp add: space_width_def)

lemma space_width_3:
  "(a = 225 \<and> b = 154 \<and> c = 128) \<or>
   (a = 226 \<and> b = 128 \<and> ((128 \<le> c \<and> c \<le> 138) \<or> c = 168 \<or> c = 169 \<or> c = 175)) \<or>
   (a = 226 \<and> b = 129 \<and> c = 159) \<or>
   (a = 227 \<and> b = 128 \<and> c = 128) \<Longrightarrow>
   space_width (a # b # c # bs) = 3"
  by (auto simp: space_width_def)

lemma space_width_cases:
  assumes "space_width bs \<noteq> 0"
  shows "(\<exists>a r. bs = a # r \<and> ((9 \<le> a \<and> a \<le> 13) \<or> a = 32)) \<or>
         (\<exists>a b r. bs = a # b # r \<and> a = 194 \<and> (b = 133 \<or> b = 160)) \<or>
         (\<exists>a b c r. bs = a # b # c # r \<and>
            ((a = 225 \<and> b = 154 \<and> c = 128) \<or>
             (a = 226 \<and> b = 128 \<and> ((128 \<le> c \<and> c \<le> 138) \<or> c = 168 \<or> c = 169 \<or> c = 175)) \<or>
             (a = 226 \<and> b = 129 \<and> c = 159) \<or>
             (a = 227 \<and> b = 128 \<and> c = 128)))"
proof (cases bs)
  case Nil
  with assms show ?thesis by (simp add: space_width_def)
next
  case 1: (Cons a r1)
  show ?thesis
  proof (cases "(9 \<le> a \<and> a \<le> 13) \<or> a = 32")
    case True
    with 1 show ?thesis by blast
  next
    case ns: False
    show ?thesis
    proof (cases r1)
      case Nil
      with assms 1 ns show ?thesis by (simp add: space_width_def split: if_splits)
    next
      case 2: (Cons b r2)
      show ?thesis
      proof (cases "a = 194")
        case True
        with assms 1 2 ns have "b = 133 \<or> b = 160"
          by (simp add: space_width_def split: if_splits)
        with True 1 2 show ?thesis by blast
      next
        case n2: False
        show ?thesis
        proof (cases r2)
          case Nil
          with assms 1 2 ns n2 show ?thesis by (simp add: space_width_def split: if_splits)
        next
          case 3: (Cons c r3)
          from assms 1 2 3 ns n2
          have "(a = 225 \<and> b = 154 \<and> c = 128) \<or>
             (a = 226 \<and> b = 128 \<and> ((128 \<le> c \<and> c \<le> 138) \<or> c = 168 \<or> c = 169 \<or> c = 175)) \<or>
             (a = 226 \<and> b = 129 \<and> c = 159) \<or>
             (a = 227 \<and> b = 128 \<and> c = 128)"
            by (simp add: space_width_def split: if_splits)
          with 1 2 3 show ?thesis by blast
        qed
      qed
    qed
  qed
qed

lemma space_width_append:
  assumes "space_width bs \<noteq> 0"
  shows "space_width (bs @ ys) = space_width bs"
  using space_width_cases[OF assms]
  by (elim disjE exE conjE) (simp_all add: space_width_1 space_width_2 space_width_3)

lemma space_width_le: "space_width bs \<le> length bs"
proof (cases "space_width bs = 0")
  case True
  then show ?thesis by simp
next
  case False
  from space_width_cases[OF False] show ?thesis
    by (elim disjE exE conjE) (simp_all add: space_width_1 space_width_2 space_width_3)
qed

lemma space_width_take:
  assumes "space_width bs \<noteq> 0"
  shows "space_width (take (space_width bs) bs) = space_width bs"
  using space_width_cases[OF assms]
  by (elim disjE exE conjE) (simp_all add: space_width_1 space_width_2 space_width_3)

lemma digit_no_space:
  "is_digit c \<or> c = CHR ''+'' \<or> c = CHR ''-'' \<Longrightarrow>
   c \<noteq> CHR 0x0A \<and> space_width (of_char c # bs) = 0"
  by (auto simp: is_digit_def space_width_def)

lemma SkipSpace_white_append:
  "white ws \<Longrightarrow> r \<noteq> [] \<Longrightarrow> hd r \<noteq> CHR 0x0A \<Longrightarrow> space_width (map of_char r) = 0 \<Longrightarrow>
   SkipSpace (ws @ r) = Some r"
proof (induction ws rule: white.induct)
  case 1
  then show ?case by (cases r) simp_all
next
  case (2 c cs)
  let ?w = "space_width (map of_char (c # cs))"
  from "2.prems"(1) have nl: "c \<noteq> CHR 0x0A" and w: "?w \<noteq> 0"
    and wh: "white (drop (?w - 1) cs)" by simp_all
  have wa: "space_width (map of_char (c # cs @ r)) = ?w"
    using space_width_append[OF w, of "map of_char r"] by simp
  have "?w \<le> length (c # cs)" using space_width_le[of "map of_char (c # cs)"] by simp
  then have le: "?w - 1 \<le> length cs" by simp
  then have dr: "drop (?w - 1) (cs @ r) = drop (?w - 1) cs @ r" by simp
  from "2.IH" nl w wh "2.prems"(2,3,4)
  have "SkipSpace (drop (?w - 1) cs @ r) = Some r" by blast
  with nl w wa dr show ?case by simp
qed

lemma SkipSpace_split: "SkipSpace v = Some r \<Longrightarrow> \<exists>ws. v = ws @ r \<and> white ws"
proof (induction v arbitrary: r rule: SkipSpace.induct)
  case 1
  then show ?case by simp
next
  case (2 c cs)
  let ?w = "space_width (map of_char (c # cs))"
  show ?case
  proof (cases "c = CHR 0x0A")
    case True
    with "2.prems" show ?thesis by simp
  next
    case nl: False
    show ?thesis
    proof (cases "?w = 0")
      case True
      with nl "2.prems" have "c # cs = [] @ r \<and> white []" by simp
      then show ?thesis by blast
    next
      case w: False
      with nl "2.prems" have "SkipSpace (drop (?w - 1) cs) = Some r" by simp
      from "2.IH"[OF nl w this] obtain ws' where d: "drop (?w - 1) cs = ws' @ r"
        and wh: "white ws'" by blast
      have "?w \<le> length (c # cs)" using space_width_le[of "map of_char (c # cs)"] by simp
      then have le: "?w - 1 \<le> length cs" by simp
      let ?pre = "c # take (?w - 1) cs"
      have tk: "map of_char ?pre = take ?w (map of_char (c # cs))"
        using w by (cases ?w) (simp_all add: take_map)
      have "space_width (map of_char ?pre) = ?w"
        unfolding tk by (rule space_width_take[OF w])
      then have sw: "space_width (map of_char (?pre @ ws')) = ?w"
        using space_width_append[of "map of_char ?pre" "map of_char ws'"] w by simp
      have dr: "drop (?w - 1) (take (?w - 1) cs @ ws') = ws'" using le by simp
      have "white (?pre @ ws')" using nl w sw dr wh by simp
      moreover have "c # cs = (?pre @ ws') @ r"
        using d append_take_drop_id[of "?w - 1" cs] by simp
      ultimately show ?thesis by blast
    qed
  qed
qed

lemma int_prefix_scan:
  assumes "int_prefix v ws sg ds rest"
  shows "SkipSpace v = Some (sg @ ds @ rest)"
    and "((sg @ ds @ rest) \<noteq> [] \<and> hd (sg @ ds @ rest) = CHR ''-'') = (sg = ''-'')"
    and "takeWhile is_digit
           (if (sg @ ds @ rest) \<noteq> [] \<and>
               (hd (sg @ ds @ rest) = CHR ''+'' \<or> hd (sg @ ds @ rest) = CHR ''-'')
            then tl (sg @ ds @ rest) else sg @ ds @ rest) = ds"
proof -
  let ?r = "sg @ ds @ rest"
  from assms have v: "v = ws @ ?r" and wh: "white ws"
    and sg: "sg = [] \<or> sg = ''+'' \<or> sg = ''-''"
    and ne: "ds \<noteq> []" and dg: "list_all is_digit ds"
    and rs: "rest = [] \<or> \<not> is_digit (hd rest)"
    by (simp_all add: int_prefix_def)
  from ne dg have hd_ds: "is_digit (hd ds)" by (cases ds) simp_all
  then have hdd: "hd ds \<noteq> CHR ''+''" "hd ds \<noteq> CHR ''-''" by (auto simp: is_digit_def)
  have rne: "?r \<noteq> []" using ne by simp
  have hdr: "is_digit (hd ?r) \<or> hd ?r = CHR ''+'' \<or> hd ?r = CHR ''-''"
    using sg hd_ds ne by auto
  obtain c cs where rc: "?r = c # cs" using rne by (cases ?r) auto
  with hdr digit_no_space[of c "map of_char cs"]
  have "hd ?r \<noteq> CHR 0x0A" "space_width (map of_char ?r) = 0" by simp_all
  from SkipSpace_white_append[OF wh rne this] v show "SkipSpace v = Some ?r" by simp
  show "(?r \<noteq> [] \<and> hd ?r = CHR ''-'') = (sg = ''-'')"
    using sg ne hdd by auto
  have r1: "(if ?r \<noteq> [] \<and> (hd ?r = CHR ''+'' \<or> hd ?r = CHR ''-'') then tl ?r else ?r) = ds @ rest"
    using sg ne hdd by auto
  have "takeWhile is_digit rest = []" using rs by (cases rest) auto
  with dg have "takeWhile is_digit (ds @ rest) = ds"
    by (simp add: list_all_iff)
  with r1 show "takeWhile is_digit
      (if ?r \<noteq> [] \<and> (hd ?r = CHR ''+'' \<or> hd ?r = CHR ''-'') then tl ?r else ?r) = ds"
    by simp
qed

lemma Sscanf_d_int_prefix:
  assumes "int_prefix v ws sg ds rest"
  shows "Sscanf_d v =
     (if - (2 ^ 63) \<le> signed_value sg ds \<and> signed_value sg ds < 2 ^ 63
      then Some (signed_value sg ds) else None)"
proof -
  from assms have ne: "ds \<noteq> []" by (simp add: int_prefix_def)
  note s = int_prefix_scan[OF assms]
  show ?thesis
    unfolding Sscanf_d_def s(1) option.case Let_def s(2) s(3) signed_value_def
    using ne by simp
qed

lemma no_int_prefixI:
  assumes "case SkipSpace v of
             None \<Rightarrow> True
           | Some r \<Rightarrow>
               takeWhile is_digit
                 (if r \<noteq> [] \<and> (hd r = CHR ''+'' \<or> hd r = CHR ''-'') then tl r else r) = []"
  shows "\<not> (\<exists>ws sg ds rest. int_prefix v ws sg ds rest)"
proof
  assume "\<exists>ws sg ds rest. int_prefix v ws sg ds rest"
  then obtain ws sg ds rest where ip: "int_prefix v ws sg ds rest" by blast
  then have ne: "ds \<noteq> []" by (simp add: int_prefix_def)
  note s = int_prefix_scan[OF ip]
  from assms s(1) s(3) have "ds = []" by simp
  with ne show False by simp
qed

lemma Sscanf_d_Some_int_prefix:
  assumes "Sscanf_d v = Some n"
  shows "\<exists>ws sg ds rest. int_prefix v ws sg ds rest"
proof -
  from assms obtain r where sk: "SkipSpace v = Some r"
    by (auto simp: Sscanf_d_def split: option.splits)
  let ?sg = "if r \<noteq> [] \<and> (hd r = CHR ''+'' \<or> hd r = CHR ''-'') then [hd r] else []"
  let ?r1 = "if r \<noteq> [] \<and> (hd r = CHR ''+'' \<or> hd r = CHR ''-'') then tl r else r"
  let ?ds = "takeWhile is_digit ?r1" and ?rest = "dropWhile is_digit ?r1"
  from assms sk have ne: "?ds \<noteq> []"
    by (auto simp: Sscanf_d_def Let_def split: if_splits)
  from SkipSpace_split[OF sk] obtain ws where v: "v = ws @ r" and wh: "white ws" by blast
  have r: "r = ?sg @ ?ds @ ?rest" by (cases r) auto
  have sg: "?sg = [] \<or> ?sg = ''+'' \<or> ?sg = ''-''" by auto
  have dg: "list_all is_digit ?ds" by (simp add: list_all_iff) (meson set_takeWhileD)
  have rs: "?rest = [] \<or> \<not> is_digit (hd ?rest)" by (metis hd_dropWhile)
  from v r have "v = ws @ ?sg @ ?ds @ ?rest" by simp
  with wh sg ne dg rs have "int_prefix v ws ?sg ?ds ?rest"
    unfolding int_prefix_def by blast
  then show ?thesis by blast
qed

text \<open>
  Claim C10, as the code has it. The claim says that a non-numeric value always yields
  0. \<open>Sscanf\<close> reads the integer a value starts with and leaves the rest unread: with
  \<open>MAX_RETRIES=12abc\<close> the retries are 12, with \<open>CONCURRENCY=3x\<close> the pool has 3 slots.
\<close>

theorem getEnvAsIntOrDefault_reads_numeric_start:
  "MAX_RETRIES [''MAX_RETRIES'' \<mapsto> ''12abc''] = 12 \<and>
   CONCURRENCY [''CONCURRENCY'' \<mapsto> ''3x''] = 3 \<and>
   getEnvAsIntOrDefault [''DB_PORT'' \<mapsto> ''5 6''] ''DB_PORT'' 5432 = 5"
  by code_simp

text \<open>
  Claim C10, amended. For each integer setting (\<open>MAX_RETRIES\<close>, \<open>CONCURRENCY\<close>,
  \<open>DB_PORT\<close>, and any other key): a variable that is unset or empty yields the default;
  a value that starts, after white space without a newline, with a decimal integer
  yields that integer when it fits 64 bits and 0 when it does not, whatever follows it;
  every other value yields 0, whatever the default, so that \<open>MAX_RETRIES\<close> becomes 0
  retries and \<open>CONCURRENCY\<close> a pool of size 0.
\<close>

theorem getEnvAsIntOrDefault_leading_integer_or_zero:
  "((env key = None \<or> env key = Some []) \<longrightarrow> getEnvAsIntOrDefault env key d = d) \<and>
   (\<forall>v ws sg ds rest. env key = Some v \<and> int_prefix v ws sg ds rest \<longrightarrow>
      getEnvAsIntOrDefault env key d =
        (if - (2 ^ 63) \<le> signed_value sg ds \<and> signed_value sg ds < 2 ^ 63
         then signed_value sg ds else 0)) \<and>
   (\<forall>v. env key = Some v \<and> v \<noteq> [] \<and> \<not> (\<exists>ws sg ds rest. int_prefix v ws sg ds rest) \<longrightarrow>
      getEnvAsIntOrDefault env key d = 0) \<and>
   (\<forall>v. env ''MAX_RETRIES'' = Some v \<and> v \<noteq> [] \<and>
        \<not> (\<exists>ws sg ds rest. int_prefix v ws sg ds rest) \<longrightarrow> MAX_RETRIES env = 0) \<and>
   (\<forall>v. env ''CONCURRENCY'' = Some v \<and> v \<noteq> [] \<and>
        \<not> (\<exists>ws sg ds rest. int_prefix v ws sg ds rest) \<longrightarrow> CONCURRENCY env = 0) \<and>
   (\<forall>v. env ''DB_PORT'' = Some v \<and> v \<noteq> [] \<and>
        \<not> (\<exists>ws sg ds rest. int_prefix v ws sg ds rest) \<longrightarrow> DB_PORT env = 0)"
proof -
  have un: "getEnvAsIntOrDefault env key d = d" if "env key = None \<or> env key = Some []"
    using that by (auto simp: getEnvAsIntOrDefault_def Getenv_def)
  have ip: "getEnvAsIntOrDefault env key d =
        (if - (2 ^ 63) \<le> signed_value sg ds \<and> signed_value sg ds < 2 ^ 63
         then signed_value sg ds else 0)"
    if "env key = Some v" "int_prefix v ws sg ds rest" for v ws sg ds rest
  proof -
    from that(2) have "v \<noteq> []" by (auto simp: int_prefix_def)
    with that(1) Sscanf_d_int_prefix[OF that(2)] show ?thesis
      by (simp add: getEnvAsIntOrDefault_def Getenv_def)
  qed
  have z: "getEnvAsIntOrDefault env k d' = 0"
    if "env k = Some v" "v \<noteq> []" "\<not> (\<exists>ws sg ds rest. int_prefix v ws sg ds rest)" for k v d'
  proof -
    from that(3) Sscanf_d_Some_int_prefix[of v] have "Sscanf_d v = None"
      by (cases "Sscanf_d v") auto
    with that(1,2) show ?thesis by (simp add: getEnvAsIntOrDefault_def Getenv_def)
  qed
  show ?thesis
    using un ip z unfolding MAX_RETRIES_def CONCURRENCY_def DB_PORT_def by blast
qed

theorem getEnvAsIntOrDefault_leading_integer_or_zero_witness:
  "malformed_env ''UNSET'' = None \<and> getEnvAsIntOrDefault malformed_env ''UNSET'' 7 = 7 \<and>
   malformed_env ''EMPTY'' = Some [] \<and> getEnvAsIntOrDefault malformed_env ''EMPTY'' 7 = 7 \<and>
   malformed_env ''MAX_RETRIES'' = Some ''12abc'' \<and> int_prefix ''12abc'' [] [] ''12'' ''abc'' \<and>
   signed_value [] ''12'' = 12 \<and> getEnvAsIntOrDefault malformed_env ''MAX_RETRIES'' 2 = 12 \<and>
   malformed_env ''BACKOFF'' = Some ''  -7 seconds'' \<and>
   int_prefix ''  -7 seconds'' ''  '' ''-'' ''7'' '' seconds'' \<and>
   getEnvAsIntOrDefault malformed_env ''BACKOFF'' 1 = - 7 \<and>
   malformed_env ''HUGE'' = Some ''9223372036854775808'' \<and>
   int_prefix ''9223372036854775808'' [] [] ''9223372036854775808'' [] \<and>
   getEnvAsIntOrDefault malformed_env ''HUGE'' 1 = 0 \<and>
   malformed_env ''CONCURRENCY'' = Some ''x9'' \<and>
   \<not> (\<exists>ws sg ds rest. int_prefix ''x9'' ws sg ds rest) \<and> CONCURRENCY malformed_env = 0 \<and>
   malformed_env ''DB_PORT'' = Some '' +five'' \<and>
   \<not> (\<exists>ws sg ds rest. int_prefix '' +five'' ws sg ds rest) \<and> DB_PORT malformed_env = 0"
proof -
  have e: "malformed_env ''UNSET'' = None" "malformed_env ''EMPTY'' = Some []"
    "malformed_env ''MAX_RETRIES'' = Some ''12abc''"
    "malformed_env ''BACKOFF'' = Some ''  -7 seconds''"
    "malformed_env ''HUGE'' = Some ''9223372036854775808''"
    "malformed_env ''CONCURRENCY'' = Some ''x9''"
    "malformed_env ''DB_PORT'' = Some '' +five''"
    by (simp_all add: malformed_env_def)
  have p: "int_prefix ''12abc'' [] [] ''12'' ''abc''"
    "int_prefix ''  -7 seconds'' ''  '' ''-'' ''7'' '' seconds''"
    "int_prefix ''9223372036854775808'' [] [] ''9223372036854775808'' []"
    by code_simp+
  have sv: "signed_value [] ''12'' = 12" "signed_value ''-'' ''7'' = - 7"
    "signed_value [] ''9223372036854775808'' = 9223372036854775808"
    by code_simp+
  have n: "\<not> (\<exists>ws sg ds rest. int_prefix ''x9'' ws sg ds rest)"
    "\<not> (\<exists>ws sg ds rest. int_prefix '' +five'' ws sg ds rest)"
    by (rule no_int_prefixI, code_simp)+
  note t = getEnvAsIntOrDefault_leading_integer_or_zero
  have 1: "getEnvAsIntOrDefault malformed_env ''UNSET'' 7 = 7"
    using t[of malformed_env "''UNSET''" 7] e by blast
  have 2: "getEnvAsIntOrDefault malformed_env ''EMPTY'' 7 = 7"
    using t[of malformed_env "''EMPTY''" 7] e by blast
  have "getEnvAsIntOrDefault malformed_env ''MAX_RETRIES'' 2 =
      (if - (2 ^ 63) \<le> signed_value [] ''12'' \<and> signed_value [] ''12'' < 2 ^ 63
       then signed_value [] ''12'' else 0)"
    using t[of malformed_env "''MAX_RETRIES''" 2] e(3) p(1) by blast
  then have 3: "getEnvAsIntOrDefault malformed_env ''MAX_RETRIES'' 2 = 12"
    by (simp add: sv)
  have "getEnvAsIntOrDefault malformed_env ''BACKOFF'' 1 =
      (if - (2 ^ 63) \<le> signed_value ''-'' ''7'' \<and> signed_value ''-'' ''7'' < 2 ^ 63
       then signed_value ''-'' ''7'' else 0)"
    using t[of malformed_env "''BACKOFF''" 1] e(4) p(2) by blast
  then have 4: "getEnvAsIntOrDefault malformed_env ''BACKOFF'' 1 = - 7"
    by (simp add: sv)
  have "getEnvAsIntOrDefault malformed_env ''HUGE'' 1 =
      (if - (2 ^ 63) \<le> signed_value [] ''9223372036854775808'' \<and>
          signed_value [] ''9223372036854775808'' < 2 ^ 63
       then signed_value [] ''9223372036854775808'' else 0)"
    using t[of malformed_env "''HUGE''" 1] e(5) p(3) by blast
  then have 5: "getEnvAsIntOrDefault malformed_env ''HUGE'' 1 = 0"
    by (simp add: sv)
  have 6: "CONCURRENCY malformed_env = 0"
    using t[of malformed_env "''CONCURRENCY''" 3] e(6) n(1) by blast
  have 7: "DB_PORT malformed_env = 0"
    using t[of malformed_env "''DB_PORT''" 5432] e(7) n(2) by blast
  from e p(1,2,3) sv(1) n 1 2 3 4 5 6 7 show ?thesis by blast
qed

section \<open>Facts about the search query\<close>

lemma foldl_filename_terms:
  "foldl (\<lambda>url filename. url @ ''+filename:'' @ filename @ ''.json'') u fs =
   u @ concat (map (\<lambda>f. ''+filename:'' @ f @ ''.json'') fs)"
  by (induction fs arbitrary: u) simp_all

lemma query_terms_noplus: "CHR ''+'' \<notin> set s \<Longrightarrow> query_terms s = [s]"
  by (induction s) auto

lemma query_terms_append:
  "CHR ''+'' \<notin> set a \<Longrightarrow> query_terms (a @ CHR ''+'' # b) = a # query_terms b"
  by (induction a) auto

lemma query_terms_filenames:
  "\<forall>f \<in> set fs. CHR ''+'' \<notin> set f \<Longrightarrow> CHR ''+'' \<notin> set u \<Longrightarrow>
   query_terms (u @ concat (map (\<lambda>f. ''+filename:'' @ f @ ''.json'') fs)) =
   u # map (\<lambda>f. ''filename:'' @ f @ ''.json'') fs"
proof (induction fs arbitrary: u)
  case Nil
  then show ?case by (simp add: query_terms_noplus)
next
  case (Cons f fs)
  let ?rest = "concat (map (\<lambda>f. ''+filename:'' @ f @ ''.json'') fs)"
  have np: "CHR ''+'' \<notin> set (''filename:'' @ f @ ''.json'')" using Cons.prems by simp
  have "query_terms (u @ concat (map (\<lambda>f. ''+filename:'' @ f @ ''.json'') (f # fs))) =
        query_terms (u @ CHR ''+'' # ((''filename:'' @ f @ ''.json'') @ ?rest))"
    by simp
  also have "\<dots> = u # query_terms ((''filename:'' @ f @ ''.json'') @ ?rest)"
    using Cons.prems(2) by (rule query_terms_append)
  also have "\<dots> = u # (''filename:'' @ f @ ''.json'') # map (\<lambda>f. ''filename:'' @ f @ ''.json'') fs"
    using Cons.IH[OF _ np] Cons.prems(1) by simp
  finally show ?case by simp
qed

text \<open>
  Claim C5. For a non-empty repository name the query is the base \<open>api?q=repo:name\<close>
  followed, when hints are given, by one \<open>+filename:hint.json\<close> per hint in order and by
  nothing else, and, when no hint is given, by the single term \<open>+extension:json\<close>. Read
  back term by term (names and hints free of \<open>+\<close>), the extension term occurs exactly
  when there are no hints, and then no filename term does: the two filters are never
  combined.
\<close>

theorem buildGitHubSearchURL_filters_exclusive:
  assumes "repo \<noteq> []"
  shows "(filenames \<noteq> [] \<longrightarrow>
            buildGitHubSearchURL api repo filenames =
              Returns (api @ ''?q=repo:'' @ repo @
                       concat (map (\<lambda>f. ''+filename:'' @ f @ ''.json'') filenames))) \<and>
         (filenames = [] \<longrightarrow>
            buildGitHubSearchURL api repo filenames =
              Returns (api @ ''?q=repo:'' @ repo @ ''+extension:json'')) \<and>
         (CHR ''+'' \<notin> set api \<union> set repo \<and> (\<forall>f \<in> set filenames. CHR ''+'' \<notin> set f) \<longrightarrow>
            (\<exists>url. buildGitHubSearchURL api repo filenames = Returns url \<and>
               query_terms url =
                 (api @ ''?q=repo:'' @ repo) #
                 (if filenames = [] then [''extension:json'']
                  else map (\<lambda>f. ''filename:'' @ f @ ''.json'') filenames) \<and>
               (''extension:json'' \<in> set (tl (query_terms url)) \<longleftrightarrow> filenames = [])))"
proof (intro conjI impI)
  assume "filenames \<noteq> []"
  with assms show "buildGitHubSearchURL api repo filenames =
      Returns (api @ ''?q=repo:'' @ repo @
               concat (map (\<lambda>f. ''+filename:'' @ f @ ''.json'') filenames))"
    unfolding buildGitHubSearchURL_def Let_def foldl_filename_terms by simp
next
  assume "filenames = []"
  with assms show "buildGitHubSearchURL api repo filenames =
      Returns (api @ ''?q=repo:'' @ repo @ ''+extension:json'')"
    by (simp add: buildGitHubSearchURL_def)
next
  assume np: "CHR ''+'' \<notin> set api \<union> set repo \<and> (\<forall>f \<in> set filenames. CHR ''+'' \<notin> set f)"
  let ?base = "api @ ''?q=repo:'' @ repo"
  have nb: "CHR ''+'' \<notin> set ?base" using np by simp
  show "\<exists>url. buildGitHubSearchURL api repo filenames = Returns url \<and>
          query_terms url =
            ?base # (if filenames = [] then [''extension:json'']
                     else map (\<lambda>f. ''filename:'' @ f @ ''.json'') filenames) \<and>
          (''extension:json'' \<in> set (tl (query_terms url)) \<longleftrightarrow> filenames = [])"
  proof (cases "filenames = []")
    case True
    have "query_terms (?base @ CHR ''+'' # ''extension:json'') = ?base # query_terms ''extension:json''"
      using nb by (rule query_terms_append)
    then have "query_terms (?base @ ''+extension:json'') = [?base, ''extension:json'']"
      by simp
    with True assms show ?thesis by (simp add: buildGitHubSearchURL_def)
  next
    case False
    have "query_terms (?base @ concat (map (\<lambda>f. ''+filename:'' @ f @ ''.json'') filenames)) =
          ?base # map (\<lambda>f. ''filename:'' @ f @ ''.json'') filenames"
      using np nb by (intro query_terms_filenames) simp_all
    moreover have "buildGitHubSearchURL api repo filenames =
        Returns (?base @ concat (map (\<lambda>f. ''+filename:'' @ f @ ''.json'') filenames))"
      using False assms unfolding buildGitHubSearchURL_def Let_def foldl_filename_terms by simp
    ultimately show ?thesis using False by auto
  qed
qed

theorem buildGitHubSearchURL_filters_exclusive_witness:
  "''owner/repo'' \<noteq> [] \<and> [''file1'', ''file2''] \<noteq> [] \<and>
   buildGitHubSearchURL ''https://api.github.com/search/code'' ''owner/repo'' [''file1'', ''file2''] =
     Returns ''https://api.github.com/search/code?q=repo:owner/repo+filename:file1.json+filename:file2.json'' \<and>
   buildGitHubSearchURL ''https://api.github.com/search/code'' ''owner/repo'' [] =
     Returns ''https://api.github.com/search/code?q=repo:owner/repo+extension:json'' \<and>
   query_terms ''https://api.github.com/search/code?q=repo:owner/repo+filename:file1.json+filename:file2.json'' =
     [''https://api.github.com/search/code?q=repo:owner/repo'', ''filename:file1.json'', ''filename:file2.json''] \<and>
   query_terms ''https://api.github.com/search/code?q=repo:owner/repo+extension:json'' =
     [''https://api.github.com/search/code?q=repo:owner/repo'', ''extension:json'']"
  using buildGitHubSearchURL_filters_exclusive
          [of "''owner/repo''" "[''file1'', ''file2'']" "''https://api.github.com/search/code''"]
        buildGitHubSearchURL_filters_exclusive
          [of "''owner/repo''" "[]" "''https://api.github.com/search/code''"]
  by simp

section \<open>Facts about the retry loops\<close>

lemma pacing_empty: "maxr < a \<Longrightarrow> pacing url a maxr = []"
  by (simp add: pacing_def)

lemma pacing_step:
  "a \<le> maxr \<Longrightarrow>
   pacing url a maxr = (if a > 0 then [Sleep a] else []) @ NewRequest url # pacing url (a + 1) maxr"
  by (simp add: pacing_def upto_rec1)

lemma sleeps_pacing: "0 \<le> a \<Longrightarrow> sleeps (pacing url a maxr) = [max a 1..maxr]"
proof (induction "nat (maxr + 1 - a)" arbitrary: a)
  case 0
  then show ?case by (simp add: pacing_def sleeps_def)
next
  case (Suc n)
  then have n: "n = nat (maxr + 1 - (a + 1))" and le: "a \<le> maxr" by linarith+
  have IH: "sleeps (pacing url (a + 1) maxr) = [max (a + 1) 1..maxr]"
    using Suc.hyps(1)[OF n] Suc.prems by simp
  show ?case
  proof (cases "a = 0")
    case True
    with IH le show ?thesis
      by (simp add: pacing_step sleeps_def)
  next
    case False
    with Suc.prems have pos: "0 < a" by simp
    then have m: "max a 1 = a" "max (a + 1) 1 = a + 1" by simp_all
    have "[a..maxr] = a # [a + 1..maxr]" using le by (simp add: upto_rec1)
    with IH le pos m show ?thesis
      by (simp add: pacing_step sleeps_def)
  qed
qed

lemma attempts_pacing: "attempts (pacing url a maxr) = replicate (nat (maxr + 1 - a)) url"
proof (induction "nat (maxr + 1 - a)" arbitrary: a)
  case 0
  then show ?case by (simp add: pacing_def attempts_def)
next
  case (Suc n)
  then have n: "n = nat (maxr + 1 - (a + 1))" and le: "a \<le> maxr" by linarith+
  have "nat (maxr + 1 - a) = Suc (nat (maxr + 1 - (a + 1)))" using le by simp
  with Suc.hyps(1)[OF n] le show ?case
    by (simp add: pacing_step attempts_def)
qed

lemma sleeps_filter_pacing: "sleeps (filter is_pacing evs) = sleeps evs"
proof (induction evs)
  case Nil
  then show ?case by simp
next
  case (Cons e evs)
  then show ?case by (cases e) (simp_all add: sleeps_def)
qed

lemma attempts_filter_pacing: "attempts (filter is_pacing evs) = attempts evs"
proof (induction evs)
  case Nil
  then show ?case by simp
next
  case (Cons e evs)
  then show ?case by (cases e) (simp_all add: attempts_def)
qed

subsection \<open>The loop of \<open>processFile\<close>\<close>

text \<open>No iteration writes the \<open>err\<close> declared before the loop.\<close>

lemma download_loop_err: "err (fst (download_loop maxr http item token a vars evs)) = err vars"
proof (induction "nat (maxr + 1 - a)" arbitrary: a vars evs)
  case 0
  then show ?case by (subst download_loop.simps) simp
next
  case (Suc n)
  then have n: "n = nat (maxr + 1 - (a + 1))" and le: "a \<le> maxr" by linarith+
  show ?case
    using le by (subst download_loop.simps)
      (simp add: Suc.hyps(1)[OF n] Let_def split: http_outcome.splits option.splits)
qed

text \<open>When every attempt fails, the loop makes them all, paced as \<open>pacing\<close> says.\<close>

lemma download_loop_all_fail:
  "\<forall>k. a \<le> k \<and> k \<le> maxr \<longrightarrow> file_attempt_fails (http k) \<Longrightarrow>
   filter is_pacing (snd (download_loop maxr http item token a vars evs)) =
     filter is_pacing evs @ pacing (URL item) a maxr"
proof (induction "nat (maxr + 1 - a)" arbitrary: a vars evs)
  case 0
  then have "maxr < a" by linarith
  then show ?case by (subst download_loop.simps) (simp add: pacing_empty)
next
  case (Suc n)
  then have n: "n = nat (maxr + 1 - (a + 1))" and le: "a \<le> maxr" by linarith+
  from Suc.prems le have f: "file_attempt_fails (http a)" by simp
  from Suc.prems have later: "\<forall>k. a + 1 \<le> k \<and> k \<le> maxr \<longrightarrow> file_attempt_fails (http k)"
    by simp
  note IH = Suc.hyps(1)[OF n later]
  show ?case
    using le f by (subst download_loop.simps)
      (auto simp: IH Let_def pacing_step split: http_outcome.splits option.splits)
qed

text \<open>
  When attempt \<open>k\<close> is the first to succeed, the loop stops there with the body it read,
  and has neither decoded nor stored anything.
\<close>

lemma download_loop_success:
  "a \<le> k \<Longrightarrow> k \<le> maxr \<Longrightarrow> \<forall>j. a \<le> j \<and> j < k \<longrightarrow> file_attempt_fails (http j) \<Longrightarrow>
   http k = Responds 200 body None \<Longrightarrow>
   data (fst (download_loop maxr http item token a vars evs)) = body \<and>
   filter is_pacing (snd (download_loop maxr http item token a vars evs)) =
     filter is_pacing evs @ pacing (URL item) a k \<and>
   filter is_file_work (snd (download_loop maxr http item token a vars evs)) =
     filter is_file_work evs"
proof (induction "nat (k - a)" arbitrary: a vars evs)
  case 0
  then have "a = k" by linarith
  with 0 show ?case
    by (subst (1 2 3) download_loop.simps)
       (auto simp: Let_def pacing_step[of k k] pacing_empty)
next
  case (Suc n)
  then have n: "n = nat (k - (a + 1))" and lt: "a < k" and le: "a \<le> maxr" by linarith+
  from Suc.prems lt have f: "file_attempt_fails (http a)" by simp
  from Suc.prems have later: "\<forall>j. a + 1 \<le> j \<and> j < k \<longrightarrow> file_attempt_fails (http j)"
    by simp
  from lt have a1: "a + 1 \<le> k" by simp
  note IH = Suc.hyps(1)[OF n a1 Suc.prems(2) later Suc.prems(4)]
  have ps: "pacing (URL item) a k =
      (if a > 0 then [Sleep a] else []) @ NewRequest (URL item) # pacing (URL item) (a + 1) k"
    using lt by (intro pacing_step) simp
  show ?case
    using le f by (subst (1 2 3) download_loop.simps)
      (auto simp: IH Let_def ps split: http_outcome.splits option.splits)
qed

text \<open>The loop itself neither decodes nor stores.\<close>

lemma download_loop_no_file_work:
  "filter is_file_work (snd (download_loop maxr http item token a vars evs)) =
   filter is_file_work evs"
proof (induction "nat (maxr + 1 - a)" arbitrary: a vars evs)
  case 0
  then show ?case by (subst download_loop.simps) simp
next
  case (Suc n)
  then have n: "n = nat (maxr + 1 - (a + 1))" and le: "a \<le> maxr" by linarith+
  show ?case
    using le by (subst download_loop.simps)
      (simp add: Suc.hyps(1)[OF n] Let_def split: http_outcome.splits option.splits)
qed

subsection \<open>The loop of \<open>searchGitHubFiles\<close>\<close>

lemma search_loop_all_fail:
  "\<forall>k. a \<le> k \<and> k \<le> maxr \<longrightarrow> search_attempt_fails w (search_http w k) \<Longrightarrow>
   (\<exists>vars'. fst (search_loop maxr w url token a vars evs) = Inl vars' \<and>
            search_err vars' = search_err vars) \<and>
   filter is_pacing (snd (search_loop maxr w url token a vars evs)) =
     filter is_pacing evs @ pacing url a maxr"
proof (induction "nat (maxr + 1 - a)" arbitrary: a vars evs)
  case 0
  then have "maxr < a" by linarith
  then show ?case by (subst (1 2) search_loop.simps) (simp add: pacing_empty)
next
  case (Suc n)
  then have n: "n = nat (maxr + 1 - (a + 1))" and le: "a \<le> maxr" by linarith+
  from Suc.prems le have f: "search_attempt_fails w (search_http w a)" by simp
  from Suc.prems
  have later: "\<forall>k. a + 1 \<le> k \<and> k \<le> maxr \<longrightarrow> search_attempt_fails w (search_http w k)"
    by simp
  note IH = Suc.hyps(1)[OF n later]
  have ps: "pacing url a maxr =
      (if a > 0 then [Sleep a] else []) @ NewRequest url # pacing url (a + 1) maxr"
    using le by (rule pacing_step)
  show ?case
  proof (cases "search_http w a")
    case (NewRequestFails e)
    then show ?thesis
      using le by (subst (1 2) search_loop.simps) (simp add: IH Let_def ps)
  next
    case (DoFails e)
    then show ?thesis
      using le by (subst (1 2) search_loop.simps) (simp add: IH Let_def ps)
  next
    case (Responds code body rerr)
    show ?thesis
    proof (cases "code \<noteq> 200 \<or> rerr \<noteq> None")
      case True
      with Responds show ?thesis
        using le by (subst (1 2) search_loop.simps) (auto simp: IH Let_def ps)
    next
      case False
      with f Responds have "fst (unmarshal_search w body (response vars)) \<noteq> None" by simp
      then obtain e r where u: "unmarshal_search w body (response vars) = (Some e, r)"
        by (cases "unmarshal_search w body (response vars)") auto
      from False Responds u show ?thesis
        using le IH[of "vars\<lparr>response := r\<rparr>"]
        by (subst (1 2) search_loop.simps) (simp add: Let_def ps)
    qed
  qed
qed

lemma search_loop_only_search_calls:
  "\<forall>e \<in> set evs. \<not> is_file_work e \<and> (\<forall>u. e = NewRequest u \<longrightarrow> u = url) \<Longrightarrow>
   \<forall>e \<in> set (snd (search_loop maxr w url token a vars evs)).
      \<not> is_file_work e \<and> (\<forall>u. e = NewRequest u \<longrightarrow> u = url)"
proof (induction "nat (maxr + 1 - a)" arbitrary: a vars evs)
  case 0
  then show ?case by (subst search_loop.simps) simp
next
  case (Suc n)
  then have n: "n = nat (maxr + 1 - (a + 1))" and le: "a \<le> maxr" by linarith+
  note IH = Suc.hyps(1)[OF n]
  let ?evs = "(if a > 0 then evs @ [Sleep a] else evs) @ [NewRequest url]"
  have ok: "\<forall>e \<in> set (?evs @ more). \<not> is_file_work e \<and> (\<forall>u. e = NewRequest u \<longrightarrow> u = url)"
    if "\<forall>e \<in> set more. \<not> is_file_work e \<and> (\<forall>u. e = NewRequest u \<longrightarrow> u = url)" for more
    using Suc.prems that by auto
  show ?case
  proof (cases "search_http w a")
    case (NewRequestFails e)
    then show ?thesis
      using le IH[OF ok[of "[]"]] by (subst search_loop.simps) (simp add: Let_def)
  next
    case (DoFails e)
    then show ?thesis
      using le IH[OF ok[of "[Do url (search_headers token)]"]]
      by (subst search_loop.simps) (simp add: Let_def)
  next
    case (Responds code body rerr)
    have ok2: "\<forall>e \<in> set (?evs @ [Do url (search_headers token), ReadAll]).
        \<not> is_file_work e \<and> (\<forall>u. e = NewRequest u \<longrightarrow> u = url)"
      using ok[of "[Do url (search_headers token), ReadAll]"] by simp
    have ok3: "\<forall>e \<in> set (?evs @ [Do url (search_headers token), ReadAll, UnmarshalSearch body]).
        \<not> is_file_work e \<and> (\<forall>u. e = NewRequest u \<longrightarrow> u = url)"
      using ok[of "[Do url (search_headers token), ReadAll, UnmarshalSearch body]"] by simp
    show ?thesis
    proof (cases "code \<noteq> 200 \<or> rerr \<noteq> None")
      case True
      with Responds show ?thesis
        using le IH[OF ok2] by (subst search_loop.simps) (auto simp: Let_def)
    next
      case False
      obtain ue r where u: "unmarshal_search w body (response vars) = (ue, r)"
        by (cases "unmarshal_search w body (response vars)") auto
      show ?thesis
      proof (cases ue)
        case None
        with False Responds u show ?thesis
          using le ok3 by (subst search_loop.simps) (simp add: Let_def)
      next
        case (Some e)
        with False Responds u show ?thesis
          using le IH[OF ok3] by (subst search_loop.simps) (simp add: Let_def)
      qed
    qed
  qed
qed

section \<open>Facts about \<open>processFile\<close>\<close>

lemma download_loop_filter:
  assumes "\<And>d. \<not> P (Sleep d)" "\<And>u. \<not> P (NewRequest u)" "\<And>u h. \<not> P (Do u h)" "\<not> P ReadAll"
  shows "filter P (snd (download_loop maxr http item token a vars evs)) = filter P evs"
proof (induction "nat (maxr + 1 - a)" arbitrary: a vars evs)
  case 0
  then show ?case by (subst download_loop.simps) simp
next
  case (Suc n)
  then have n: "n = nat (maxr + 1 - (a + 1))" and le: "a \<le> maxr" by linarith+
  show ?case
    using le assms by (subst download_loop.simps)
      (simp add: Suc.hyps(1)[OF n] Let_def split: http_outcome.splits option.splits)
qed

lemma saved_records_append: "saved_records (xs @ ys) = saved_records xs @ saved_records ys"
  by (simp add: saved_records_def)

lemma saved_records_no_file_work: "filter is_file_work evs = [] \<Longrightarrow> saved_records evs = []"
proof (induction evs)
  case Nil
  then show ?case by (simp add: saved_records_def)
next
  case (Cons e evs)
  then show ?case by (cases e) (simp_all add: saved_records_def split: if_splits)
qed

lemma foldl_snoc_map: "foldl (\<lambda>acc x. acc @ [f x]) acc xs = acc @ map f xs"
  by (induction xs arbitrary: acc) simp_all

text \<open>The two nested loops visit every record of every block, in order.\<close>

lemma add_metadata_eq:
  "add_metadata item scanTime fileContent =
   map (\<lambda>payload. payload\<lparr>SourceFile := Path item, Vulnerabality.ScanTime := scanTime\<rparr>)
     (concat (map (\<lambda>scanResult. Vulnerabilities (ScanResults scanResult)) fileContent))"
proof -
  let ?f = "\<lambda>payload. payload\<lparr>SourceFile := Path item, Vulnerabality.ScanTime := scanTime\<rparr>"
  have "foldl (\<lambda>vulnerabilities scanResult.
              if length (Vulnerabilities (ScanResults scanResult)) = 0 then vulnerabilities
              else foldl (\<lambda>vulnerabilities payload. vulnerabilities @ [?f payload])
                     vulnerabilities (Vulnerabilities (ScanResults scanResult)))
          acc fileContent =
        acc @ map ?f (concat (map (\<lambda>scanResult. Vulnerabilities (ScanResults scanResult)) fileContent))"
    for acc
    by (induction fileContent arbitrary: acc) (simp_all add: foldl_snoc_map)
  from this[of "[]"] show ?thesis by (simp add: add_metadata_def)
qed

text \<open>
  The check after the loop reads the \<open>err\<close> that no iteration writes: \<open>processFile\<close>
  never returns the "failed to download file" error.
\<close>

lemma processFile_never_DownloadFailed:
  "fst (processFile maxr w db i item token) \<noteq> Some (DownloadFailed n e)"
proof -
  obtain vars evs where d:
    "download_loop maxr (file_http w i) item token 0 \<lparr>data = [], err = None\<rparr> [] = (vars, evs)"
    by (cases "download_loop maxr (file_http w i) item token 0 \<lparr>data = [], err = None\<rparr> []")
  have "err vars = None"
    using download_loop_err[of maxr "file_http w i" item token 0 "\<lparr>data = [], err = None\<rparr>" "[]"] d
    by simp
  with d show ?thesis
    by (simp add: processFile_def Let_def split: prod.splits option.splits)
qed

text \<open>
  When every attempt fails, \<open>processFile\<close> has made them all, with the waits between
  them, and then goes on to decode whatever \<open>data\<close> holds.
\<close>

lemma processFile_all_fail:
  assumes "\<forall>k. 0 \<le> k \<and> k \<le> maxr \<longrightarrow> file_attempt_fails (file_http w i k)"
  shows "filter is_pacing (snd (processFile maxr w db i item token)) = pacing (URL item) 0 maxr"
    and "attempts (snd (processFile maxr w db i item token)) = replicate (nat (maxr + 1)) (URL item)"
    and "sleeps (snd (processFile maxr w db i item token)) = [1..maxr]"
    and "\<exists>d. UnmarshalFile d \<in> set (snd (processFile maxr w db i item token))"
proof -
  obtain vars evs where d:
    "download_loop maxr (file_http w i) item token 0 \<lparr>data = [], err = None\<rparr> [] = (vars, evs)"
    by (cases "download_loop maxr (file_http w i) item token 0 \<lparr>data = [], err = None\<rparr> []")
  have e: "err vars = None"
    using download_loop_err[of maxr "file_http w i" item token 0 "\<lparr>data = [], err = None\<rparr>" "[]"] d
    by simp
  have p: "filter is_pacing evs = pacing (URL item) 0 maxr"
    using download_loop_all_fail[OF assms, of item token "\<lparr>data = [], err = None\<rparr>" "[]"] d
    by simp
  from d e p show 1: "filter is_pacing (snd (processFile maxr w db i item token)) = pacing (URL item) 0 maxr"
    by (simp add: processFile_def Let_def split: prod.splits option.splits)
  from 1 show "attempts (snd (processFile maxr w db i item token)) = replicate (nat (maxr + 1)) (URL item)"
    using attempts_filter_pacing[of "snd (processFile maxr w db i item token)"]
    by (simp add: attempts_pacing)
  from 1 show "sleeps (snd (processFile maxr w db i item token)) = [1..maxr]"
    using sleeps_filter_pacing[of "snd (processFile maxr w db i item token)"]
    by (simp add: sleeps_pacing)
  from d e show "\<exists>d. UnmarshalFile d \<in> set (snd (processFile maxr w db i item token))"
    by (auto simp: processFile_def Let_def split: prod.splits option.splits)
qed

text \<open>The same for the search, which does return its error.\<close>

lemma searchGitHubFiles_all_fail:
  assumes "\<forall>k. 0 \<le> k \<and> k \<le> maxr \<longrightarrow> search_attempt_fails w (search_http w k)"
  shows "fst (searchGitHubFiles maxr w url token) = Inl (SearchFailed (maxr + 1) None)"
    and "filter is_pacing (snd (searchGitHubFiles maxr w url token)) = pacing url 0 maxr"
    and "attempts (snd (searchGitHubFiles maxr w url token)) = replicate (nat (maxr + 1)) url"
    and "sleeps (snd (searchGitHubFiles maxr w url token)) = [1..maxr]"
proof -
  let ?v = "\<lparr>response = \<lparr>TotalCount = 0, Items = []\<rparr>, search_err = None\<rparr>"
  from search_loop_all_fail[OF assms, of url token ?v "[]"]
  obtain vars' where r: "fst (search_loop maxr w url token 0 ?v []) = Inl vars'"
    and e: "search_err vars' = None"
    and p: "filter is_pacing (snd (search_loop maxr w url token 0 ?v [])) = pacing url 0 maxr"
    by auto
  from r e show "fst (searchGitHubFiles maxr w url token) = Inl (SearchFailed (maxr + 1) None)"
    by (cases "search_loop maxr w url token 0 ?v []") (simp add: searchGitHubFiles_def)
  from r p show 2: "filter is_pacing (snd (searchGitHubFiles maxr w url token)) = pacing url 0 maxr"
    by (cases "search_loop maxr w url token 0 ?v []") (simp add: searchGitHubFiles_def)
  from 2 show "attempts (snd (searchGitHubFiles maxr w url token)) = replicate (nat (maxr + 1)) url"
    using attempts_filter_pacing[of "snd (searchGitHubFiles maxr w url token)"]
    by (simp add: attempts_pacing)
  from 2 show "sleeps (snd (searchGitHubFiles maxr w url token)) = [1..maxr]"
    using sleeps_filter_pacing[of "snd (searchGitHubFiles maxr w url token)"]
    by (simp add: sleeps_pacing)
qed

section \<open>Exhausted retries\<close>

text \<open>
  Claim C4, at a failing input. With \<open>MAX_RETRIES = 2\<close> and every request for the file
  answered with status 500, the claim expects the download error that names the last
  cause, and no decoding. \<open>processFile\<close> makes its three attempts, then decodes the
  empty \<open>data\<close> and returns the parse error of the empty input.
\<close>

theorem processFile_status_500_is_parse_error:
  "fst (processFile 2 status_500_world healthy_db 0 item_a ''t0ken'') =
     Some (ParseFailed (Opaque ''unexpected end of JSON input'') []) \<and>
   fst (processFile 2 status_500_world healthy_db 0 item_a ''t0ken'') \<noteq>
     Some (DownloadFailed 3 (StatusError 500 ''Internal Server Error'')) \<and>
   filter is_pacing (snd (processFile 2 status_500_world healthy_db 0 item_a ''t0ken'')) =
     [NewRequest ''https://host/a'', Sleep 1, NewRequest ''https://host/a'', Sleep 2,
      NewRequest ''https://host/a''] \<and>
   filter is_file_work (snd (processFile 2 status_500_world healthy_db 0 item_a ''t0ken'')) =
     [UnmarshalFile []]"
  by code_simp

text \<open>
  Claim C2, at a failing input. With \<open>MAX_RETRIES = 2\<close> and every request for the file
  failing while its body is read, three attempts are made, with waits of 1 and 2 seconds
  before the second and the third, as the claim says; but no error is surfaced: the bytes
  of the broken read are decoded and \<open>processFile\<close> returns nil.
\<close>

theorem processFile_short_read_surfaces_no_error:
  "file_attempt_fails (file_http short_read_world 0 0) \<and>
   file_attempt_fails (file_http short_read_world 0 1) \<and>
   file_attempt_fails (file_http short_read_world 0 2) \<and>
   filter is_pacing (snd (processFile 2 short_read_world healthy_db 0 item_a ''t0ken'')) =
     [NewRequest ''https://host/a'', Sleep 1, NewRequest ''https://host/a'', Sleep 2,
      NewRequest ''https://host/a''] \<and>
   filter is_file_work (snd (processFile 2 short_read_world healthy_db 0 item_a ''t0ken'')) =
     [UnmarshalFile ''[]''] \<and>
   fst (processFile 2 short_read_world healthy_db 0 item_a ''t0ken'') = None"
  by code_simp

section \<open>Facts about the parallel phase\<close>

lemma initial_inv_count: "inv_count cap (initial items)"
  by (simp add: inv_count_def initial_def)

lemma initial_inv_units: "inv_units maxr w db token items (initial items)"
  by (simp add: inv_units_def initial_def distinct_enumerate)

lemma mset_take_unit:
  "distinct (map fst ws) \<Longrightarrow> map_of ws i = Some item \<Longrightarrow>
   mset ws = mset ((i, item) # filter (\<lambda>u. fst u \<noteq> i) ws)"
proof (induction ws)
  case Nil
  then show ?case by simp
next
  case (Cons u ws)
  show ?case
  proof (cases "fst u = i")
    case True
    with Cons.prems have u: "u = (i, item)" by (cases u) simp
    from Cons.prems(1) have nf: "fst u \<notin> fst ` set ws" by simp
    have "\<forall>v \<in> set ws. fst v \<noteq> i"
    proof (intro ballI notI)
      fix v assume "v \<in> set ws" "fst v = i"
      then have "i \<in> fst ` set ws" by (intro image_eqI[where x = v]) simp_all
      with True nf show False by simp
    qed
    then have "filter (\<lambda>u. fst u \<noteq> i) ws = ws" by (simp add: filter_id_conv)
    with u show ?thesis by simp
  next
    case False
    with Cons.prems have "map_of ws i = Some item" by (cases u) auto
    with Cons False show ?thesis by simp
  qed
qed

lemma mset_concat_map_cong:
  "mset xs = mset ys \<Longrightarrow> mset (concat (map f xs)) = mset (concat (map f ys))"
proof -
  assume e: "mset xs = mset ys"
  have "mset (concat (map f zs)) = (\<Sum>z \<in># mset zs. mset (f z))" for zs
    by (induction zs) simp_all
  with e show ?thesis by simp
qed

lemma take_unit_facts:
  assumes "distinct (map fst (td @ ws))" "map_of ws i = Some item"
  shows "length ws = Suc (length (filter (\<lambda>u. fst u \<noteq> i) ws))"
    and "mset (concat (map f (td @ ws))) =
         mset (f (i, item)) + mset (concat (map f (td @ filter (\<lambda>u. fst u \<noteq> i) ws)))"
    and "distinct (map fst (td @ filter (\<lambda>u. fst u \<noteq> i) ws))"
    and "(i, item) \<in> set ws"
proof -
  from assms(1) have d: "distinct (map fst ws)" by simp
  note m = mset_take_unit[OF d assms(2)]
  from mset_eq_length[OF m]
  show "length ws = Suc (length (filter (\<lambda>u. fst u \<noteq> i) ws))" by simp
  from m have "mset (td @ ws) = mset ((i, item) # td @ filter (\<lambda>u. fst u \<noteq> i) ws)" by simp
  from mset_concat_map_cong[OF this, of f]
  show "mset (concat (map f (td @ ws))) =
        mset (f (i, item)) + mset (concat (map f (td @ filter (\<lambda>u. fst u \<noteq> i) ws)))"
    by simp
  from assms(1) show "distinct (map fst (td @ filter (\<lambda>u. fst u \<noteq> i) ws))"
    by (auto simp: distinct_map_filter)
  from assms(2) show "(i, item) \<in> set ws" by (rule map_of_SomeD)
qed

lemma step_inv:
  assumes c: "inv_count cap s" and u: "inv_units maxr w db token items s"
    and st: "step maxr w db token cap s a = Some s'"
  shows "inv_count cap s' \<and> inv_units maxr w db token items s'"
proof (cases a)
  case Submit
  with st obtain i item rest where t: "todo s = (i, item) # rest" and lt: "pool s < cap"
    and s': "s' = s\<lparr>todo := rest, wg := wg s + 1, pool := pool s + 1,
                      working := working s @ [(i, item)]\<rparr>"
    by (auto simp: step_def split: list.splits if_splits)
  have m: "mset (rest @ working s @ [(i, item)]) = mset (todo s @ working s)"
    using t by simp
  have "inv_count cap s'" using c lt s' by (simp add: inv_count_def)
  moreover have "inv_units maxr w db token items s'"
    using u t s' mset_concat_map_cong[OF m, of "unit_path maxr w db token"]
      mset_concat_map_cong[OF m, of "unit_error maxr w db token"]
    by (auto simp: inv_units_def ac_simps)
  ultimately show ?thesis by simp
next
  case (Finish i)
  with st obtain item where mo: "map_of (working s) i = Some item"
    by (auto simp: step_def split: option.splits)
  obtain e evs where pf: "processFile maxr w db i item token = (e, evs)"
    by (cases "processFile maxr w db i item token")
  let ?ws = "filter (\<lambda>u. fst u \<noteq> i) (working s)"
  from st Finish mo pf have s': "s' = record_outcome item e
      (s\<lparr>working := ?ws, leaving := leaving s @ [i], trace := trace s @ evs\<rparr>)"
    by (simp add: step_def)
  from u have d: "distinct (map fst (todo s @ working s))" by (simp add: inv_units_def)
  note f = take_unit_facts[OF d mo]
  have "inv_count cap s'"
    using c s' f(1) by (cases e) (simp_all add: inv_count_def record_outcome_def)
  moreover have "inv_units maxr w db token items s'"
  proof (cases e)
    case None
    with pf have up: "unit_path maxr w db token (i, item) = [Path item]"
      and ue: "unit_error maxr w db token (i, item) = []"
      by (simp_all add: unit_path_def unit_error_def)
    from u s' None f(2)[of "unit_path maxr w db token"] f(2)[of "unit_error maxr w db token"] f(3) up ue
    show ?thesis
      by (auto simp: inv_units_def record_outcome_def)
  next
    case (Some e')
    with pf have up: "unit_path maxr w db token (i, item) = []"
      and ue: "unit_error maxr w db token (i, item) = [ProcessingError (Path item) e']"
      by (simp_all add: unit_path_def unit_error_def)
    from u s' Some f(2)[of "unit_path maxr w db token"] f(2)[of "unit_error maxr w db token"] f(3) up ue
    show ?thesis
      by (auto simp: inv_units_def record_outcome_def)
  qed
  ultimately show ?thesis by simp
next
  case (Release i)
  with st have mem: "i \<in> set (leaving s)"
    and s': "s' = s\<lparr>leaving := remove1 i (leaving s), pool := pool s - 1, wg := wg s - 1\<rparr>"
    by (auto simp: step_def split: if_splits)
  from mem have "length (leaving s) = Suc (length (remove1 i (leaving s)))"
    by (simp add: length_remove1) (cases "leaving s"; simp)
  with c s' have "inv_count cap s'" by (simp add: inv_count_def)
  moreover from u s' have "inv_units maxr w db token items s'" by (simp add: inv_units_def)
  ultimately show ?thesis by simp
qed

lemma run_inv:
  "inv_count cap s \<Longrightarrow> inv_units maxr w db token items s \<Longrightarrow>
   run maxr w db token cap s sched = Some s' \<Longrightarrow>
   inv_count cap s' \<and> inv_units maxr w db token items s'"
proof (induction sched arbitrary: s)
  case Nil
  then show ?case by simp
next
  case (Cons a sched)
  from Cons.prems(3) obtain s1 where st: "step maxr w db token cap s a = Some s1"
    and r: "run maxr w db token cap s1 sched = Some s'"
    by (auto split: option.splits)
  from step_inv[OF Cons.prems(1,2) st] Cons.IH r show ?case by blast
qed

lemma reachable_inv:
  "run maxr w db token cap (initial items) sched = Some s \<Longrightarrow>
   inv_count cap s \<and> inv_units maxr w db token items s"
  using run_inv[OF initial_inv_count initial_inv_units] .


lemma unit_lengths:
  "length (concat (map (unit_path maxr w db token) us)) +
   length (concat (map (unit_error maxr w db token) us)) = length us"
  by (induction us) (simp_all add: unit_path_def unit_error_def split: option.splits)

lemma unit_path_filter:
  "concat (map (unit_path maxr w db token) us) =
   map (\<lambda>u. Path (snd u))
     (filter (\<lambda>u. fst (processFile maxr w db (fst u) (snd u) token) = None) us)"
  by (induction us) (simp_all add: unit_path_def split: option.splits)

lemma unit_error_all_fail:
  "\<forall>u \<in> set us. fst (processFile maxr w db (fst u) (snd u) token) \<noteq> None \<Longrightarrow>
   length (concat (map (unit_error maxr w db token) us)) = length us"
  by (induction us) (auto simp: unit_error_def split: option.splits)

lemma unit_error_some_ok:
  "\<exists>u \<in> set us. fst (processFile maxr w db (fst u) (snd u) token) = None \<Longrightarrow>
   length (concat (map (unit_error maxr w db token) us)) < length us"
proof (induction us)
  case Nil
  then show ?case by simp
next
  case (Cons u us)
  have le: "length (concat (map (unit_error maxr w db token) us)) \<le> length us"
    using unit_lengths[of maxr w db token us] by linarith
  show ?case
  proof (cases "fst (processFile maxr w db (fst u) (snd u) token)")
    case None
    then have "unit_error maxr w db token u = []" by (simp add: unit_error_def)
    with le show ?thesis by simp
  next
    case (Some e)
    then have ue: "unit_error maxr w db token u = [ProcessingError (Path (snd u)) e]"
      by (simp add: unit_error_def)
    from Some Cons.prems
    have "\<exists>u \<in> set us. fst (processFile maxr w db (fst u) (snd u) token) = None" by auto
    from Cons.IH[OF this] ue show ?thesis by simp
  qed
qed

lemma accounting:
  assumes "inv_units maxr w db token items s"
  shows "length (todo s) + length (working s) + length (processedFiles s) +
         length (errorsOccurred s) = length items"
proof -
  let ?p = "todo s @ working s"
  from assms have
    "size (mset (processedFiles s) + mset (concat (map (unit_path maxr w db token) ?p))) =
     size (mset (concat (map (unit_path maxr w db token) (enumerate 0 items))))"
    "size (mset (errorsOccurred s) + mset (concat (map (unit_error maxr w db token) ?p))) =
     size (mset (concat (map (unit_error maxr w db token) (enumerate 0 items))))"
    by (simp_all only: inv_units_def)
  then have
    "length (processedFiles s) + length (concat (map (unit_path maxr w db token) ?p)) =
     length (concat (map (unit_path maxr w db token) (enumerate 0 items)))"
    "length (errorsOccurred s) + length (concat (map (unit_error maxr w db token) ?p)) =
     length (concat (map (unit_error maxr w db token) (enumerate 0 items)))"
    by (simp_all only: size_union size_mset)
  with unit_lengths[of maxr w db token ?p] unit_lengths[of maxr w db token "enumerate 0 items"]
  show ?thesis by simp
qed

section \<open>Progress of the parallel phase\<close>

text \<open>
  With a pool of one or more slots the units can always be run to the end, for instance
  one after the other; with a pool of size 0 the first send never proceeds, and
  \<open>processFilesInParallel\<close> does not return on a non-empty item list.
\<close>

lemma sequential_Suc:
  "sequential k (Suc n) = [Submit, Finish k, Release k] @ sequential (Suc k) n"
proof -
  have "[k..<k + Suc n] = k # [Suc k..<Suc k + n]" by (simp add: upt_rec)
  then show ?thesis by (simp add: sequential_def)
qed

lemma run_sequential:
  assumes "0 < cap"
  shows "todo s = enumerate k its \<Longrightarrow> pool s = 0 \<Longrightarrow> wg s = 0 \<Longrightarrow> working s = [] \<Longrightarrow>
         leaving s = [] \<Longrightarrow>
         \<exists>s'. run maxr w db token cap s (sequential k (length its)) = Some s' \<and>
              todo s' = [] \<and> wg s' = 0"
proof (induction its arbitrary: s k)
  case Nil
  then show ?case by (simp add: sequential_def)
next
  case (Cons item its)
  let ?s1 = "s\<lparr>todo := enumerate (Suc k) its, wg := 1, pool := 1, working := [(k, item)]\<rparr>"
  have 1: "step maxr w db token cap s Submit = Some ?s1"
    using Cons.prems assms by (simp add: step_def)
  obtain e evs where pf: "processFile maxr w db k item token = (e, evs)"
    by (cases "processFile maxr w db k item token")
  let ?s2 = "record_outcome item e (?s1\<lparr>working := [], leaving := [k], trace := trace s @ evs\<rparr>)"
  have 2: "step maxr w db token cap ?s1 (Finish k) = Some ?s2"
    using Cons.prems pf by (simp add: step_def)
  let ?s3 = "?s2\<lparr>leaving := [], pool := 0, wg := 0\<rparr>"
  have 3: "step maxr w db token cap ?s2 (Release k) = Some ?s3"
    by (cases e) (simp_all add: step_def record_outcome_def)
  have "todo ?s3 = enumerate (Suc k) its" "pool ?s3 = 0" "wg ?s3 = 0" "working ?s3 = []"
    "leaving ?s3 = []"
    by (cases e; simp add: record_outcome_def)+
  from Cons.IH[OF this] obtain s' where
    r: "run maxr w db token cap ?s3 (sequential (Suc k) (length its)) = Some s'"
    and f: "todo s' = []" "wg s' = 0"
    by blast
  from 1 2 3 r have "run maxr w db token cap s (sequential k (length (item # its))) = Some s'"
    by (simp add: sequential_Suc)
  with f show ?case by blast
qed

lemma processFilesInParallel_can_complete:
  assumes "0 < concurrency t"
  shows "\<exists>r. processFilesInParallel t w db items token repoName (sequential 0 (length items)) =
            Some r"
proof -
  from assms have cap: "0 < nat (concurrency t)" by simp
  have "\<exists>s'. run (max_retries t) w db token (nat (concurrency t)) (initial items)
                (sequential 0 (length items)) = Some s' \<and> todo s' = [] \<and> wg s' = 0"
    by (rule run_sequential[OF cap]) (simp_all add: initial_def)
  then obtain s' where "run (max_retries t) w db token (nat (concurrency t)) (initial items)
                (sequential 0 (length items)) = Some s'" "todo s' = []" "wg s' = 0"
    by blast
  with assms show ?thesis
    by (simp add: processFilesInParallel_def split: list.splits)
qed

lemma run_zero_pool:
  "run maxr w db token 0 (initial items) sched = Some s \<Longrightarrow> sched = [] \<and> s = initial items"
proof (cases sched)
  case Nil
  assume "run maxr w db token 0 (initial items) sched = Some s"
  with Nil show ?thesis by simp
next
  case (Cons a rest)
  have "step maxr w db token 0 (initial items) a = None"
    by (cases a) (simp_all add: step_def initial_def split: list.splits)
  moreover assume "run maxr w db token 0 (initial items) sched = Some s"
  ultimately show ?thesis using Cons by simp
qed

lemma processFilesInParallel_zero_pool_never_returns:
  assumes "concurrency t = 0" and "items \<noteq> []"
  shows "processFilesInParallel t w db items token repoName sched = None"
proof (cases "run (max_retries t) w db token 0 (initial items) sched")
  case None
  with assms show ?thesis by (simp add: processFilesInParallel_def)
next
  case (Some s)
  from run_zero_pool[OF Some] have "s = initial items" by simp
  with assms(2) have "todo s \<noteq> []" by (cases items) (simp_all add: initial_def)
  with Some assms show ?thesis by (simp add: processFilesInParallel_def)
qed

text \<open>
  Claim C9. In every state that \<open>processFilesInParallel\<close> can reach with
  \<open>CONCURRENCY = N\<close>, at most \<open>N\<close> units are between the start of their goroutine and
  the recording of their outcome (the fetch, parse and store phase). When the channel
  holds \<open>N\<close> tokens the submitter cannot take its step (it is blocked); as soon as one
  unit releases its token, the submitter proceeds with the very item it was holding.
  No item is dropped on the way: every item is waiting to be submitted, in flight, or
  has its outcome recorded.
\<close>

theorem pool_bounds_units_in_flight:
  assumes "run (max_retries t) w db token (nat (concurrency t)) (initial items) sched = Some s"
  shows "length (working s) \<le> nat (concurrency t) \<and>
         (pool s = nat (concurrency t) \<longrightarrow>
            step (max_retries t) w db token (nat (concurrency t)) s Submit = None) \<and>
         (\<forall>i s'. todo s \<noteq> [] \<and>
                 step (max_retries t) w db token (nat (concurrency t)) s (Release i) = Some s' \<longrightarrow>
                 (\<exists>s''. step (max_retries t) w db token (nat (concurrency t)) s' Submit = Some s'' \<and>
                        working s'' = working s' @ [hd (todo s)] \<and> todo s'' = tl (todo s))) \<and>
         length (todo s) + length (working s) + length (processedFiles s) +
           length (errorsOccurred s) = length items"
proof -
  from reachable_inv[OF assms]
  have c: "inv_count (nat (concurrency t)) s"
    and u: "inv_units (max_retries t) w db token items s" by simp_all
  from c have 1: "length (working s) \<le> nat (concurrency t)" by (simp add: inv_count_def)
  have 2: "pool s = nat (concurrency t) \<longrightarrow>
      step (max_retries t) w db token (nat (concurrency t)) s Submit = None"
    by (simp add: step_def split: list.splits)
  have 3: "\<exists>s''. step (max_retries t) w db token (nat (concurrency t)) s' Submit = Some s'' \<and>
          working s'' = working s' @ [hd (todo s)] \<and> todo s'' = tl (todo s)"
    if ne: "todo s \<noteq> []"
      and r: "step (max_retries t) w db token (nat (concurrency t)) s (Release i) = Some s'"
    for i s'
  proof -
    from r have mem: "i \<in> set (leaving s)"
      and s': "s' = s\<lparr>leaving := remove1 i (leaving s), pool := pool s - 1, wg := wg s - 1\<rparr>"
      by (auto simp: step_def split: if_splits)
    from mem have "leaving s \<noteq> []" by auto
    with c have "0 < pool s" "pool s \<le> nat (concurrency t)" by (simp_all add: inv_count_def)
    then have "pool s' < nat (concurrency t)" using s' by simp
    with ne s' show ?thesis
      by (cases "todo s") (auto simp: step_def)
  qed
  from 1 2 3 accounting[OF u] show ?thesis by blast
qed

theorem pool_bounds_units_in_flight_witness:
  "run 2 sample_world healthy_db ''t0ken'' 1 (initial [item_a, item_b]) [Submit, Finish 0] =
     Some (the (run 2 sample_world healthy_db ''t0ken'' 1 (initial [item_a, item_b])
                  [Submit, Finish 0])) \<and>
   (let s = the (run 2 sample_world healthy_db ''t0ken'' 1 (initial [item_a, item_b])
                   [Submit, Finish 0]);
        s' = the (step 2 sample_world healthy_db ''t0ken'' 1 s (Release 0))
    in pool s = 1 \<and> todo s = [(1, item_b)] \<and> length (working s) \<le> 1 \<and>
       step 2 sample_world healthy_db ''t0ken'' 1 s Submit = None \<and>
       step 2 sample_world healthy_db ''t0ken'' 1 s (Release 0) = Some s' \<and>
       (\<exists>s''. step 2 sample_world healthy_db ''t0ken'' 1 s' Submit = Some s'' \<and>
              working s'' = working s' @ [(1, item_b)] \<and> todo s'' = []) \<and>
       length (todo s) + length (working s) + length (processedFiles s) +
         length (errorsOccurred s) = 2)"
proof -
  let ?t = "\<lparr>github_api = [], max_retries = 2, concurrency = 1\<rparr>"
  let ?s = "the (run 2 sample_world healthy_db ''t0ken'' 1 (initial [item_a, item_b])
                   [Submit, Finish 0])"
  let ?s' = "the (step 2 sample_world healthy_db ''t0ken'' 1 ?s (Release 0))"
  have r: "run 2 sample_world healthy_db ''t0ken'' 1 (initial [item_a, item_b]) [Submit, Finish 0]
      = Some ?s"
    by code_simp
  have p: "pool ?s = 1" by code_simp
  have td: "todo ?s = [(1, item_b)]" by code_simp
  have rel: "step 2 sample_world healthy_db ''t0ken'' 1 ?s (Release 0) = Some ?s'" by code_simp
  from r have r': "run (max_retries ?t) sample_world healthy_db ''t0ken'' (nat (concurrency ?t))
      (initial [item_a, item_b]) [Submit, Finish 0] = Some ?s"
    by simp
  from pool_bounds_units_in_flight[OF r'] r p td rel show ?thesis
    by (simp add: Let_def)
qed

text \<open>
  Claim C1. For a non-empty item list and any schedule under which
  \<open>processFilesInParallel\<close> returns (all units have completed and \<open>wg.Wait()\<close> has
  returned): if every unit failed, the result is the "all files failed" error, built
  from the error of one of the units, tagged with that unit's path; if some unit
  succeeded, the result is a summary whose \<open>SourceFiles\<close> holds exactly the paths of
  the units that succeeded (in completion order, so as a multiset) and whose
  \<open>ProcessedFiles\<close> is the length of that list.
\<close>

theorem processFilesInParallel_all_failed_or_summary:
  assumes "items \<noteq> []"
    and "map_option fst (returned (processFilesInParallel t w db items token repoName sched)) =
         Some res"
  shows "((\<forall>u \<in> set (enumerate 0 items).
             fst (processFile (max_retries t) w db (fst u) (snd u) token) \<noteq> None) \<longrightarrow>
          (\<exists>u \<in> set (enumerate 0 items). \<exists>e.
             fst (processFile (max_retries t) w db (fst u) (snd u) token) = Some e \<and>
             res = Inl (AllFailed (ProcessingError (Path (snd u)) e)))) \<and>
         ((\<exists>u \<in> set (enumerate 0 items).
             fst (processFile (max_retries t) w db (fst u) (snd u) token) = None) \<longrightarrow>
          (\<exists>summary. res = Inr summary \<and>
             mset (SourceFiles summary) =
               mset (map (\<lambda>u. Path (snd u))
                      (filter (\<lambda>u. fst (processFile (max_retries t) w db (fst u) (snd u) token) = None)
                         (enumerate 0 items))) \<and>
             ProcessedFiles summary = int (length (SourceFiles summary)) \<and>
             SourceRepo summary = repoName))"
proof -
  let ?maxr = "max_retries t" and ?cap = "nat (concurrency t)"
  let ?us = "enumerate 0 items"
  from assms(2) obtain evs where
    ret: "processFilesInParallel t w db items token repoName sched = Some (Returns (res, evs))"
    by (auto simp: returned_def split: option.splits completion.splits)
  then obtain s where nn: "\<not> concurrency t < 0"
    and r: "run ?maxr w db token ?cap (initial items) sched = Some s"
    and td: "todo s = []" and wg0: "wg s = 0"
    by (auto simp: processFilesInParallel_def split: if_splits option.splits)
  from reachable_inv[OF r]
  have c: "inv_count ?cap s" and u: "inv_units ?maxr w db token items s" by simp_all
  from c have "wg s = length (working s) + length (leaving s)"
    unfolding inv_count_def by linarith
  with wg0 have wk: "working s = []" by simp
  from u td wk have pm: "mset (processedFiles s) = mset (concat (map (unit_path ?maxr w db token) ?us))"
    and em: "mset (errorsOccurred s) = mset (concat (map (unit_error ?maxr w db token) ?us))"
    by (simp_all add: inv_units_def)
  from mset_eq_length[OF em]
  have el: "length (errorsOccurred s) = length (concat (map (unit_error ?maxr w db token) ?us))" .
  have res: "(res, evs) =
      (if length (errorsOccurred s) = length items then
         (case errorsOccurred s of e # _ \<Rightarrow> (Inl (AllFailed e), trace s))
       else (Inr \<lparr>ProcessedFiles = int (length (processedFiles s)), ScanTime = now_result w,
                   SourceRepo = repoName, SourceFiles = processedFiles s\<rparr>, trace s @ [Now]))"
    using ret nn r td wg0
    by (auto simp: processFilesInParallel_def split: if_splits list.splits)
  show ?thesis
  proof (intro conjI impI)
    assume all: "\<forall>u \<in> set ?us. fst (processFile ?maxr w db (fst u) (snd u) token) \<noteq> None"
    from unit_error_all_fail[OF all] el have len: "length (errorsOccurred s) = length items"
      by simp
    with assms(1) obtain e0 rest where eo: "errorsOccurred s = e0 # rest"
      by (cases "errorsOccurred s") auto
    with res len have r0: "res = Inl (AllFailed e0)" by simp
    from eo have "e0 \<in># mset (errorsOccurred s)" by simp
    with em have "e0 \<in> set (concat (map (unit_error ?maxr w db token) ?us))"
      by (metis set_mset_mset)
    then obtain u where uin: "u \<in> set ?us" and e0u: "e0 \<in> set (unit_error ?maxr w db token u)"
      by auto
    from e0u have "\<exists>e. fst (processFile ?maxr w db (fst u) (snd u) token) = Some e \<and>
        e0 = ProcessingError (Path (snd u)) e"
      by (cases "fst (processFile ?maxr w db (fst u) (snd u) token)")
         (simp_all add: unit_error_def)
    with uin r0 show "\<exists>u \<in> set ?us. \<exists>e.
        fst (processFile ?maxr w db (fst u) (snd u) token) = Some e \<and>
        res = Inl (AllFailed (ProcessingError (Path (snd u)) e))"
      by blast
  next
    assume some: "\<exists>u \<in> set ?us. fst (processFile ?maxr w db (fst u) (snd u) token) = None"
    from unit_error_some_ok[OF some] el have "length (errorsOccurred s) \<noteq> length items"
      by simp
    with res have "res = Inr \<lparr>ProcessedFiles = int (length (processedFiles s)),
        ScanTime = now_result w, SourceRepo = repoName, SourceFiles = processedFiles s\<rparr>"
      by simp
    with pm show "\<exists>summary. res = Inr summary \<and>
        mset (SourceFiles summary) =
          mset (map (\<lambda>u. Path (snd u))
                 (filter (\<lambda>u. fst (processFile ?maxr w db (fst u) (snd u) token) = None) ?us)) \<and>
        ProcessedFiles summary = int (length (SourceFiles summary)) \<and>
        SourceRepo summary = repoName"
      by (simp add: unit_path_filter)
  qed
qed


theorem processFilesInParallel_all_failed_or_summary_witness:
  "[item_a, item_b, item_c] \<noteq> [] \<and>
   map_option fst (returned (processFilesInParallel
       \<lparr>github_api = [], max_retries = 2, concurrency = 3\<rparr> mixed_world
       healthy_db [item_a, item_b, item_c] ''t0ken'' ''o/r''
       [Submit, Submit, Submit, Finish 2, Finish 1, Finish 0, Release 1, Release 0, Release 2])) =
     Some (Inr \<lparr>ProcessedFiles = 2, ScanTime = 300, SourceRepo = ''o/r'',
                 SourceFiles = [''scans/c.json'', ''scans/a.json'']\<rparr>) \<and>
   (\<exists>u \<in> set (enumerate 0 [item_a, item_b, item_c]).
      fst (processFile 2 mixed_world healthy_db (fst u) (snd u) ''t0ken'') = None) \<and>
   mset [''scans/c.json'', ''scans/a.json''] =
     mset (map (\<lambda>u. Path (snd u))
            (filter (\<lambda>u. fst (processFile 2 mixed_world healthy_db (fst u) (snd u) ''t0ken'') = None)
               (enumerate 0 [item_a, item_b, item_c]))) \<and>
   map_option fst (returned (processFilesInParallel
       \<lparr>github_api = [], max_retries = 2, concurrency = 1\<rparr> status_500_world
       healthy_db [item_a, item_b, item_c] ''t0ken'' ''o/r'' (sequential 0 3))) =
     Some (Inl (AllFailed (ProcessingError ''scans/a.json''
                  (ParseFailed (Opaque ''unexpected end of JSON input'') [])))) \<and>
   fst (processFile 2 status_500_world healthy_db 0 item_a ''t0ken'') \<noteq> None \<and>
   fst (processFile 2 status_500_world healthy_db 1 item_b ''t0ken'') \<noteq> None \<and>
   fst (processFile 2 status_500_world healthy_db 2 item_c ''t0ken'') \<noteq> None \<and>
   (\<exists>u \<in> set (enumerate 0 [item_a, item_b, item_c]). \<exists>e.
      fst (processFile 2 status_500_world healthy_db (fst u) (snd u) ''t0ken'') = Some e \<and>
      ProcessingError ''scans/a.json'' (ParseFailed (Opaque ''unexpected end of JSON input'') []) =
        ProcessingError (Path (snd u)) e)"
proof -
  let ?t3 = "\<lparr>github_api = [], max_retries = 2, concurrency = 3\<rparr>"
  let ?t1 = "\<lparr>github_api = [], max_retries = 2, concurrency = 1\<rparr>"
  have ne: "[item_a, item_b, item_c] \<noteq> []" by simp
  have m1: "map_option fst (returned (processFilesInParallel ?t3 mixed_world
       healthy_db [item_a, item_b, item_c] ''t0ken'' ''o/r''
       [Submit, Submit, Submit, Finish 2, Finish 1, Finish 0, Release 1, Release 0, Release 2])) =
     Some (Inr \<lparr>ProcessedFiles = 2, ScanTime = 300, SourceRepo = ''o/r'',
                 SourceFiles = [''scans/c.json'', ''scans/a.json'']\<rparr>)"
    by code_simp
  have m2: "\<exists>u \<in> set (enumerate 0 [item_a, item_b, item_c]).
      fst (processFile (max_retries ?t3) mixed_world healthy_db (fst u) (snd u) ''t0ken'') = None"
    by code_simp
  have a1: "map_option fst (returned (processFilesInParallel ?t1 status_500_world
       healthy_db [item_a, item_b, item_c] ''t0ken'' ''o/r'' (sequential 0 3))) =
     Some (Inl (AllFailed (ProcessingError ''scans/a.json''
                  (ParseFailed (Opaque ''unexpected end of JSON input'') []))))"
    by code_simp
  have a2: "\<forall>u \<in> set (enumerate 0 [item_a, item_b, item_c]).
      fst (processFile (max_retries ?t1) status_500_world healthy_db (fst u) (snd u) ''t0ken'') \<noteq> None"
    by code_simp
  from processFilesInParallel_all_failed_or_summary[OF ne m1] m2
  have cm: "mset [''scans/c.json'', ''scans/a.json''] =
     mset (map (\<lambda>u. Path (snd u))
            (filter (\<lambda>u. fst (processFile 2 mixed_world healthy_db (fst u) (snd u) ''t0ken'') = None)
               (enumerate 0 [item_a, item_b, item_c])))"
    by auto
  from processFilesInParallel_all_failed_or_summary[OF ne a1] a2
  have ca: "\<exists>u \<in> set (enumerate 0 [item_a, item_b, item_c]). \<exists>e.
      fst (processFile 2 status_500_world healthy_db (fst u) (snd u) ''t0ken'') = Some e \<and>
      ProcessingError ''scans/a.json'' (ParseFailed (Opaque ''unexpected end of JSON input'') []) =
        ProcessingError (Path (snd u)) e"
    by auto
  have a3: "fst (processFile 2 status_500_world healthy_db 0 item_a ''t0ken'') \<noteq> None"
    "fst (processFile 2 status_500_world healthy_db 1 item_b ''t0ken'') \<noteq> None"
    "fst (processFile 2 status_500_world healthy_db 2 item_c ''t0ken'') \<noteq> None"
    by code_simp+
  from ne m1 m2 a1 a3 cm ca show ?thesis by simp
qed

section \<open>Metadata of the stored records\<close>

lemma processFile_saved_records:
  "\<forall>v \<in> set (saved_records (snd (processFile maxr w db i item token))).
     SourceFile v = Path item \<and> Vulnerabality.ScanTime v = now_file w i"
proof -
  obtain vars evs where d:
    "download_loop maxr (file_http w i) item token 0 \<lparr>data = [], err = None\<rparr> [] = (vars, evs)"
    by (cases "download_loop maxr (file_http w i) item token 0 \<lparr>data = [], err = None\<rparr> []")
  have "filter is_file_work evs = []"
    using download_loop_filter[of is_file_work maxr "file_http w i" item token 0
        "\<lparr>data = [], err = None\<rparr>" "[]"] d
    by simp
  then have s0: "saved_records evs = []" by (rule saved_records_no_file_work)
  have st: "\<forall>v \<in> set (add_metadata item (now_file w i) fc).
      SourceFile v = Path item \<and> Vulnerabality.ScanTime v = now_file w i" for fc
    by (simp add: add_metadata_eq)
  show ?thesis
    using d s0 st
    by (auto simp: processFile_def Let_def saved_records_append saved_records_def
             split: prod.splits option.splits)
qed

lemma processFile_reads_clock_once:
  "length (filter (\<lambda>e. e = Now) (snd (processFile maxr w db i item token))) \<le> 1"
proof -
  obtain vars evs where d:
    "download_loop maxr (file_http w i) item token 0 \<lparr>data = [], err = None\<rparr> [] = (vars, evs)"
    by (cases "download_loop maxr (file_http w i) item token 0 \<lparr>data = [], err = None\<rparr> []")
  have "filter (\<lambda>e. e = Now) evs = []"
    using download_loop_filter[of "\<lambda>e. e = Now" maxr "file_http w i" item token 0
        "\<lparr>data = [], err = None\<rparr>" "[]"] d
    by simp
  with d show ?thesis
    by (auto simp: processFile_def Let_def split: prod.splits option.splits)
qed

lemma step_stamped:
  assumes "\<forall>v \<in> set (saved_records (trace s)). stamped w items v"
    and "set (working s) \<subseteq> set (enumerate 0 items)"
    and "step maxr w db token cap s a = Some s'"
  shows "\<forall>v \<in> set (saved_records (trace s')). stamped w items v"
proof (cases a)
  case Submit
  with assms show ?thesis by (auto simp: step_def split: list.splits if_splits)
next
  case (Finish i)
  with assms(3) obtain item where mo: "map_of (working s) i = Some item"
    by (auto simp: step_def split: option.splits)
  then have "(i, item) \<in> set (working s)" by (rule map_of_SomeD)
  with assms(2) have uin: "(i, item) \<in> set (enumerate 0 items)" by blast
  obtain e evs where pf: "processFile maxr w db i item token = (e, evs)"
    by (cases "processFile maxr w db i item token")
  from assms(3) Finish mo pf have "s' = record_outcome item e
      (s\<lparr>working := filter (\<lambda>u. fst u \<noteq> i) (working s), leaving := leaving s @ [i],
         trace := trace s @ evs\<rparr>)"
    by (simp add: step_def)
  then have tr: "trace s' = trace s @ evs"
    by (cases e) (simp_all add: record_outcome_def)
  from processFile_saved_records[of maxr w db i item token] pf uin
  have "\<forall>v \<in> set (saved_records evs). stamped w items v"
    unfolding stamped_def by force
  with assms(1) tr show ?thesis by (auto simp: saved_records_append)
next
  case (Release i)
  with assms show ?thesis by (auto simp: step_def split: if_splits)
qed

lemma run_stamped:
  "\<forall>v \<in> set (saved_records (trace s)). stamped w items v \<Longrightarrow>
   inv_count cap s \<Longrightarrow> inv_units maxr w db token items s \<Longrightarrow>
   run maxr w db token cap s sched = Some s' \<Longrightarrow>
   \<forall>v \<in> set (saved_records (trace s')). stamped w items v"
proof (induction sched arbitrary: s)
  case Nil
  then show ?case by simp
next
  case (Cons a sched)
  from Cons.prems(4) obtain s1 where st: "step maxr w db token cap s a = Some s1"
    and r: "run maxr w db token cap s1 sched = Some s'"
    by (auto split: option.splits)
  from Cons.prems(3) have sub: "set (working s) \<subseteq> set (enumerate 0 items)"
    by (simp add: inv_units_def)
  from step_stamped[OF Cons.prems(1) sub st] step_inv[OF Cons.prems(2,3) st] r Cons.IH
  show ?case by blast
qed

text \<open>
  Claim C3, as the code has it. The claim says that all records of one invocation carry
  one timestamp, assigned once per invocation. \<open>processFile\<close> reads the clock itself,
  once per file, after the file is decoded: below, two files of one \<open>Scan\<close> are stored
  with the timestamps 100 and 200.
\<close>

theorem Scan_timestamps_differ_between_files:
  "scan_result (Scan default_tunables sample_world sample_env None ''o/r'' []
      [Submit, Submit, Finish 0, Finish 1, Release 0, Release 1]) =
     Some (Inr \<lparr>ProcessedFiles = 2, ScanTime = 300, SourceRepo = ''o/r'',
                 SourceFiles = [''scans/a.json'', ''scans/b.json'']\<rparr>) \<and>
   map SourceFile (saved_records (scan_trace
     (Scan default_tunables sample_world sample_env None ''o/r'' []
        [Submit, Submit, Finish 0, Finish 1, Release 0, Release 1]))) =
     [''scans/a.json'', ''scans/b.json''] \<and>
   map Vulnerabality.ScanTime (saved_records (scan_trace
     (Scan default_tunables sample_world sample_env None ''o/r'' []
        [Submit, Submit, Finish 0, Finish 1, Release 0, Release 1]))) =
     [100, 200]"
  by code_simp

text \<open>
  Claim C3, amended. All records that one call of \<open>processFile\<close> hands to storage carry
  the path of its file as source file and one timestamp, read from the clock once in
  that call; so in every state of the parallel phase each stored record carries the
  path and the clock reading of one of the units.
\<close>

theorem processFile_stamps_once_per_file:
  "(\<forall>v \<in> set (saved_records (snd (processFile maxr w db i item token))).
      SourceFile v = Path item \<and> Vulnerabality.ScanTime v = now_file w i) \<and>
   length (filter (\<lambda>e. e = Now) (snd (processFile maxr w db i item token))) \<le> 1 \<and>
   (\<forall>s. run maxr w db token cap (initial items) sched = Some s \<longrightarrow>
      (\<forall>v \<in> set (saved_records (trace s)). stamped w items v))"
proof -
  have "\<forall>v \<in> set (saved_records (trace s)). stamped w items v"
    if "run maxr w db token cap (initial items) sched = Some s" for s
    using run_stamped[OF _ initial_inv_count initial_inv_units that]
    by (simp add: initial_def saved_records_def)
  with processFile_saved_records[of maxr w db i item token]
    processFile_reads_clock_once[of maxr w db i item token]
  show ?thesis by blast
qed

theorem processFile_stamps_once_per_file_witness:
  "saved_records (snd (processFile 2 sample_world healthy_db 1 item_b ''t0ken'')) =
     [cve_1234\<lparr>SourceFile := ''scans/b.json'', Vulnerabality.ScanTime := 200\<rparr>] \<and>
   Path item_b = ''scans/b.json'' \<and> now_file sample_world 1 = 200 \<and>
   filter (\<lambda>e. e = Now) (snd (processFile 2 sample_world healthy_db 1 item_b ''t0ken'')) = [Now] \<and>
   run 2 sample_world healthy_db ''t0ken'' 3 (initial [item_a, item_b])
       [Submit, Submit, Finish 1, Finish 0] \<noteq> None \<and>
   map (\<lambda>v. (SourceFile v, Vulnerabality.ScanTime v))
     (saved_records (trace (the (run 2 sample_world healthy_db ''t0ken'' 3 (initial [item_a, item_b])
        [Submit, Submit, Finish 1, Finish 0])))) =
     [(''scans/b.json'', 200), (''scans/a.json'', 100)] \<and>
   stamped sample_world [item_a, item_b]
     (cve_1234\<lparr>SourceFile := ''scans/b.json'', Vulnerabality.ScanTime := 200\<rparr>)"
proof -
  let ?s = "the (run 2 sample_world healthy_db ''t0ken'' 3 (initial [item_a, item_b])
        [Submit, Submit, Finish 1, Finish 0])"
  have 1: "saved_records (snd (processFile 2 sample_world healthy_db 1 item_b ''t0ken'')) =
     [cve_1234\<lparr>SourceFile := ''scans/b.json'', Vulnerabality.ScanTime := 200\<rparr>]"
    by code_simp
  have 2: "Path item_b = ''scans/b.json''" "now_file sample_world 1 = 200"
    by (simp_all add: item_b_def sample_world_def)
  have 3: "filter (\<lambda>e. e = Now) (snd (processFile 2 sample_world healthy_db 1 item_b ''t0ken'')) = [Now]"
    by code_simp
  have 4: "run 2 sample_world healthy_db ''t0ken'' 3 (initial [item_a, item_b])
       [Submit, Submit, Finish 1, Finish 0] = Some ?s"
    by code_simp
  have 5: "map (\<lambda>v. (SourceFile v, Vulnerabality.ScanTime v)) (saved_records (trace ?s)) =
     [(''scans/b.json'', 200), (''scans/a.json'', 100)]"
    by code_simp
  from processFile_stamps_once_per_file
         [of 2 sample_world healthy_db 1 item_b "''t0ken''" 3 "[item_a, item_b]"
             "[Submit, Submit, Finish 1, Finish 0]"] 4
  have 6: "\<forall>v \<in> set (saved_records (trace ?s)). stamped sample_world [item_a, item_b] v"
    by blast
  have 7: "run 2 sample_world healthy_db ''t0ken'' 3 (initial [item_a, item_b])
       [Submit, Submit, Finish 1, Finish 0] \<noteq> None"
    by code_simp
  have 8: "cve_1234\<lparr>SourceFile := ''scans/b.json'', Vulnerabality.ScanTime := 200\<rparr>
      \<in> set (saved_records (trace ?s))"
    by code_simp
  from 6 8 have 9: "stamped sample_world [item_a, item_b]
     (cve_1234\<lparr>SourceFile := ''scans/b.json'', Vulnerabality.ScanTime := 200\<rparr>)"
    by blast
  from 1 2 3 5 7 9 show ?thesis by blast
qed

section \<open>Malformed files\<close>

text \<open>
  Claim C8, as the code has it. The claim says that the parse error shows a truncated
  view of the payload. The error is built from \<open>string(data)\<close>, all of it: below, a
  page of 74 bytes served in place of the file appears in the error in full.
\<close>

theorem parse_error_shows_whole_payload:
  "errorsOccurred (record_outcome item_a
       (fst (processFile 2 garbage_world healthy_db 0 item_a ''t0ken'')) (initial [item_a])) =
     [ProcessingError ''scans/a.json''
        (ParseFailed (Opaque ''invalid character looking for beginning of value'')
           ''<html><body>Service temporarily unavailable, try again later</body></html>'')] \<and>
   map payload_view (errorsOccurred (record_outcome item_a
       (fst (processFile 2 garbage_world healthy_db 0 item_a ''t0ken'')) (initial [item_a]))) =
     [Some garbage] \<and>
   length garbage = 74"
  by code_simp

text \<open>
  Claim C8, amended. When attempt \<open>k\<close> is the first to fetch the file and its content
  does not decode, \<open>processFile\<close> decodes once, stores nothing, makes no request after
  attempt \<open>k\<close> and ends with the decoding; the recorded error is the parse error, with
  the decoder's error and the whole payload, tagged with the path of the file.
\<close>

theorem decode_failure_once_with_whole_payload:
  assumes "0 \<le> k" and "k \<le> maxr"
    and "\<forall>j. 0 \<le> j \<and> j < k \<longrightarrow> file_attempt_fails (file_http w i j)"
    and "file_http w i k = Responds 200 body None"
    and "fst (unmarshal_file w body) = Some e"
  shows "fst (processFile maxr w db i item token) = Some (ParseFailed e body) \<and>
         filter is_file_work (snd (processFile maxr w db i item token)) = [UnmarshalFile body] \<and>
         filter is_pacing (snd (processFile maxr w db i item token)) = pacing (URL item) 0 k \<and>
         last (snd (processFile maxr w db i item token)) = UnmarshalFile body \<and>
         errorsOccurred (record_outcome item (fst (processFile maxr w db i item token)) s) =
           errorsOccurred s @ [ProcessingError (Path item) (ParseFailed e body)] \<and>
         payload_view (ProcessingError (Path item) (ParseFailed e body)) = Some body"
proof -
  obtain vars evs where d:
    "download_loop maxr (file_http w i) item token 0 \<lparr>data = [], err = None\<rparr> [] = (vars, evs)"
    by (cases "download_loop maxr (file_http w i) item token 0 \<lparr>data = [], err = None\<rparr> []")
  have er: "err vars = None"
    using download_loop_err[of maxr "file_http w i" item token 0 "\<lparr>data = [], err = None\<rparr>" "[]"] d
    by simp
  from download_loop_success[OF assms(1,2,3,4), of item token "\<lparr>data = [], err = None\<rparr>" "[]"] d
  have dv: "data vars = body" and pc: "filter is_pacing evs = pacing (URL item) 0 k"
    and fw: "filter is_file_work evs = []"
    by simp_all
  obtain fc where um: "unmarshal_file w body = (Some e, fc)"
    using assms(5) by (cases "unmarshal_file w body") simp
  from d er dv um have pf: "processFile maxr w db i item token =
      (Some (ParseFailed e body), evs @ [UnmarshalFile body])"
    by (simp add: processFile_def)
  with pc fw show ?thesis by (simp add: record_outcome_def)
qed

theorem decode_failure_once_with_whole_payload_witness:
  "(0::int) \<le> 1 \<and> (1::int) \<le> 2 \<and>
   file_attempt_fails (file_http garbage_world 0 0) \<and>
   file_http garbage_world 0 0 = DoFails (Opaque ''context deadline exceeded'') \<and>
   file_http garbage_world 0 1 = Responds 200 garbage None \<and>
   fst (unmarshal_file garbage_world garbage) =
     Some (Opaque ''invalid character looking for beginning of value'') \<and>
   fst (processFile 2 garbage_world healthy_db 0 item_a ''t0ken'') =
     Some (ParseFailed (Opaque ''invalid character looking for beginning of value'') garbage) \<and>
   filter is_file_work (snd (processFile 2 garbage_world healthy_db 0 item_a ''t0ken'')) =
     [UnmarshalFile garbage] \<and>
   filter is_pacing (snd (processFile 2 garbage_world healthy_db 0 item_a ''t0ken'')) =
     [NewRequest ''https://host/a'', Sleep 1, NewRequest ''https://host/a''] \<and>
   last (snd (processFile 2 garbage_world healthy_db 0 item_a ''t0ken'')) = UnmarshalFile garbage \<and>
   errorsOccurred (record_outcome item_a
       (fst (processFile 2 garbage_world healthy_db 0 item_a ''t0ken'')) (initial [item_a])) =
     [ProcessingError ''scans/a.json''
        (ParseFailed (Opaque ''invalid character looking for beginning of value'') garbage)]"
proof -
  have h3: "\<forall>j. 0 \<le> j \<and> j < 1 \<longrightarrow> file_attempt_fails (file_http garbage_world 0 j)"
    by (simp add: garbage_world_def)
  have h0: "file_http garbage_world 0 0 = DoFails (Opaque ''context deadline exceeded'')"
    by (simp add: garbage_world_def)
  have h4: "file_http garbage_world 0 1 = Responds 200 garbage None"
    by (simp add: garbage_world_def)
  have h5: "fst (unmarshal_file garbage_world garbage) =
     Some (Opaque ''invalid character looking for beginning of value'')"
    by code_simp
  have p: "pacing ''https://host/a'' 0 1 =
      [NewRequest ''https://host/a'', Sleep 1, NewRequest ''https://host/a'']"
    by code_simp
  have u: "URL item_a = ''https://host/a''" "Path item_a = ''scans/a.json''"
    by (simp_all add: item_a_def)
  have e0: "errorsOccurred (initial [item_a]) = []" by (simp add: initial_def)
  from decode_failure_once_with_whole_payload
         [OF _ _ h3 h4 h5, of 2 healthy_db item_a "''t0ken''" "initial [item_a]"]
       h0 h4 h5 p u e0
  show ?thesis by (simp add: record_outcome_def)
qed

section \<open>The service operations\<close>

lemma searchGitHubFiles_only_search_calls:
  "\<forall>e \<in> set (snd (searchGitHubFiles maxr w url token)).
     \<not> is_file_work e \<and> (\<forall>u. e = NewRequest u \<longrightarrow> u = url)"
proof -
  let ?v = "\<lparr>response = \<lparr>TotalCount = 0, Items = []\<rparr>, search_err = None\<rparr>"
  have "\<forall>e \<in> set (snd (search_loop maxr w url token 0 ?v [])).
     \<not> is_file_work e \<and> (\<forall>u. e = NewRequest u \<longrightarrow> u = url)"
    by (rule search_loop_only_search_calls) simp
  then show ?thesis
    by (cases "search_loop maxr w url token 0 ?v []")
       (auto simp: searchGitHubFiles_def split: sum.splits)
qed

lemma attempts_mem: "u \<in> set (attempts evs) \<Longrightarrow> NewRequest u \<in> set evs"
proof (induction evs)
  case Nil
  then show ?case by (simp add: attempts_def)
next
  case (Cons e evs)
  then show ?case by (cases e) (auto simp: attempts_def)
qed

lemma InitDatabase_trace:
  "\<forall>e \<in> set (snd (InitDatabase w env)). \<not> is_file_work e \<and> (\<forall>u. e \<noteq> NewRequest u)"
  by (auto simp: InitDatabase_def Let_def split: prod.splits option.splits)

text \<open>
  Claim C6. When the search of a \<open>Scan\<close> succeeds with no items, \<open>Scan\<close> returns the
  summary of zero files with an empty list and no error, whatever the schedule and the
  pool size (the pool is not entered); among its calls there is no decoding of a file
  and no write to storage, and every request made is the search request.
\<close>

theorem Scan_without_items_is_clean:
  assumes "database = None \<longrightarrow> (\<exists>db. fst (InitDatabase w env) = Inr db)"
    and "Getenv env ''GITHUB_API_TOKEN'' \<noteq> []"
    and "buildGitHubSearchURL (github_api t) repoName filenames = Returns url"
    and "fst (searchGitHubFiles (max_retries t) w url (Getenv env ''GITHUB_API_TOKEN'')) = Inr []"
  shows "scan_result (Scan t w env database repoName filenames sched) =
           Some (Inr \<lparr>ProcessedFiles = 0, ScanTime = now_result w, SourceRepo = repoName,
                       SourceFiles = []\<rparr>) \<and>
         filter is_file_work (scan_trace (Scan t w env database repoName filenames sched)) = [] \<and>
         set (attempts (scan_trace (Scan t w env database repoName filenames sched))) \<subseteq> {url}"
proof -
  let ?token = "Getenv env ''GITHUB_API_TOKEN''"
  obtain db ievs where i: "(case database of None \<Rightarrow> InitDatabase w env | Some db \<Rightarrow> (Inr db, []))
      = (Inr db, ievs)"
    and it: "\<forall>e \<in> set ievs. \<not> is_file_work e \<and> (\<forall>u. e \<noteq> NewRequest u)"
  proof (cases database)
    case None
    with assms(1) obtain db where "fst (InitDatabase w env) = Inr db" by blast
    then have "InitDatabase w env = (Inr db, snd (InitDatabase w env))"
      by (cases "InitDatabase w env") simp
    with None InitDatabase_trace[of w env] that show ?thesis by simp
  next
    case (Some db)
    with that[of db "[]"] show ?thesis by simp
  qed
  obtain sevs where s: "searchGitHubFiles (max_retries t) w url ?token = (Inr [], sevs)"
    using assms(4) by (cases "searchGitHubFiles (max_retries t) w url ?token") simp
  from searchGitHubFiles_only_search_calls[of "max_retries t" w url ?token] s
  have st: "\<forall>e \<in> set sevs. \<not> is_file_work e \<and> (\<forall>u. e = NewRequest u \<longrightarrow> u = url)"
    by simp
  have sc: "Scan t w env database repoName filenames sched =
      Some (Returns (Inr \<lparr>ProcessedFiles = 0, ScanTime = now_result w, SourceRepo = repoName,
                           SourceFiles = []\<rparr>, Some db, ievs @ sevs @ [Now]))"
    using i assms(2,3) s by (simp add: Scan_def)
  have fw: "filter is_file_work (ievs @ sevs @ [Now]) = []"
    using it st by (auto simp: filter_empty_conv)
  have at: "set (attempts (ievs @ sevs @ [Now])) \<subseteq> {url}"
  proof
    fix u assume "u \<in> set (attempts (ievs @ sevs @ [Now]))"
    then have "NewRequest u \<in> set (ievs @ sevs @ [Now])" by (rule attempts_mem)
    with it st show "u \<in> {url}" by auto
  qed
  from sc fw at show ?thesis
    by (simp add: scan_result_def scan_trace_def returned_def)
qed

theorem Scan_without_items_is_clean_witness:
  "(\<exists>db. fst (InitDatabase no_items_world sample_env) = Inr db) \<and>
   Getenv sample_env ''GITHUB_API_TOKEN'' \<noteq> [] \<and>
   buildGitHubSearchURL ''https://api.github.com/search/code'' ''o/r'' [] =
     Returns ''https://api.github.com/search/code?q=repo:o/r+extension:json'' \<and>
   fst (searchGitHubFiles 2 no_items_world
          ''https://api.github.com/search/code?q=repo:o/r+extension:json''
          (Getenv sample_env ''GITHUB_API_TOKEN'')) = Inr [] \<and>
   scan_result (Scan \<lparr>github_api = ''https://api.github.com/search/code'', max_retries = 2,
                      concurrency = 0\<rparr> no_items_world sample_env None ''o/r'' [] []) =
     Some (Inr \<lparr>ProcessedFiles = 0, ScanTime = 300, SourceRepo = ''o/r'', SourceFiles = []\<rparr>) \<and>
   filter is_file_work
     (scan_trace (Scan \<lparr>github_api = ''https://api.github.com/search/code'', max_retries = 2,
                        concurrency = 0\<rparr> no_items_world sample_env None ''o/r'' [] [])) = [] \<and>
   attempts
     (scan_trace (Scan \<lparr>github_api = ''https://api.github.com/search/code'', max_retries = 2,
                        concurrency = 0\<rparr> no_items_world sample_env None ''o/r'' [] [])) =
     [''https://api.github.com/search/code?q=repo:o/r+extension:json'',
      ''https://api.github.com/search/code?q=repo:o/r+extension:json'']"
proof -
  let ?t = "\<lparr>github_api = ''https://api.github.com/search/code'', max_retries = 2,
             concurrency = 0\<rparr>"
  let ?url = "''https://api.github.com/search/code?q=repo:o/r+extension:json''"
  have "fst (InitDatabase no_items_world sample_env) = Inr healthy_db"
    by (simp add: InitDatabase_def no_items_world_def sample_world_def)
  then have h1: "None = (None :: dbRepository option) \<longrightarrow>
      (\<exists>db. fst (InitDatabase no_items_world sample_env) = Inr db)"
    by blast
  have h2: "Getenv sample_env ''GITHUB_API_TOKEN'' \<noteq> []"
    by (simp add: Getenv_def sample_env_def)
  have h3: "buildGitHubSearchURL (github_api ?t) ''o/r'' [] = Returns ?url"
    by (simp add: buildGitHubSearchURL_def)
  have h4: "fst (searchGitHubFiles (max_retries ?t) no_items_world ?url
                  (Getenv sample_env ''GITHUB_API_TOKEN'')) = Inr []"
    by code_simp
  have nr: "now_result no_items_world = 300"
    by (simp add: no_items_world_def sample_world_def)
  have a: "attempts (scan_trace (Scan ?t no_items_world sample_env None ''o/r'' [] [])) =
      [?url, ?url]"
    by code_simp
  have h1': "\<exists>db. fst (InitDatabase no_items_world sample_env) = Inr db"
    using h1 by simp
  from Scan_without_items_is_clean[OF h1 h2 h3 h4, of "[]"] h1' h2 h3 h4 nr a
  show ?thesis by simp
qed

text \<open>What \<open>Filter\<close> returns when the read from storage succeeds, and when it fails.\<close>

lemma Filter_with_database:
  "fst (Filter w env (Some db) severity) =
     (case GetVulnerabilities db severity of
        (vulnerabilities, None) \<Rightarrow> (vulnerabilities, None)
      | (vulnerabilities, Some e) \<Rightarrow> ([], None))"
  by (simp add: Filter_def split: prod.splits option.splits)

lemma Filter_error_only_from_InitDatabase:
  "snd (fst (Filter w env database severity)) = Some e \<Longrightarrow>
   database = None \<and> fst (InitDatabase w env) = Inl e"
  by (cases database; cases "InitDatabase w env")
     (auto simp: Filter_def split: prod.splits option.splits sum.splits)

text \<open>
  Claim C7, at a failing input. The database handle is set and its read fails (the
  test double with \<open>err\<close> set, holding a record of severity HIGH). The claim expects
  \<open>Filter\<close> to return an error; it returns the empty list and nil.
\<close>

theorem Filter_hides_failed_read:
  "GetVulnerabilities broken_db ''HIGH'' =
     ([], Some (Opaque ''dial tcp 127.0.0.1:5432: connect: connection refused'')) \<and>
   fst (Filter sample_world sample_env (Some broken_db) ''HIGH'') = ([], None)"
  by (simp add: Filter_def broken_db_def mock_db_def)

end
